theory Spec2Isabelle
  imports Main "HOL-Library.Word"
begin

section \<open>Platform values used by the engine\<close>

text \<open>
  A \<open>Buffer\<close> is a sequence of bytes, a JavaScript string a sequence of UTF-16 code
  units. JavaScript numbers that hold lengths and offsets are integers here; every such
  number of the program is far inside the range where doubles are exact.
\<close>

type_synonym byte = "8 word"
type_synonym buffer = "byte list"
type_synonym jsstring = "16 word list"

datatype js_error =
    ERR_INVALID_HTML_ENCODING string
  | DecodeError
  | ERR_INVALID_CHUNK
  | RangeError
  | ContentLengthError string
  | ContentTypeError

datatype 'a completion = Returns 'a | Throws js_error

text \<open>\<open>adjustOffset\<close> of \<open>Buffer.prototype.slice\<close>: a negative offset counts from the end,
  and every offset is clamped into \<open>0 .. length\<close>.\<close>

definition adjustOffset :: "int \<Rightarrow> int \<Rightarrow> int" where
  "adjustOffset offset n =
     (if offset = 0 then 0
      else if offset < 0 then (if offset + n > 0 then offset + n else 0)
      else if offset < n then offset
      else n)"

text \<open>\<open>buf.slice(start, end)\<close> and \<open>buf.slice(start)\<close>.\<close>

definition slice2 :: "buffer \<Rightarrow> int \<Rightarrow> int \<Rightarrow> buffer" where
  "slice2 buf start fin =
     (let n = int (length buf);
          s = adjustOffset start n;
          e = adjustOffset fin n;
          newLength = (if e > s then e - s else 0)
      in take (nat newLength) (drop (nat s) buf))"

definition slice1 :: "buffer \<Rightarrow> int \<Rightarrow> buffer" where
  "slice1 buf start =
     (let n = int (length buf);
          s = adjustOffset start n;
          newLength = (if n > s then n - s else 0)
      in take (nat newLength) (drop (nat s) buf))"

text \<open>
  \<open>Buffer.concat(list, totalLength)\<close>: an empty list gives the empty buffer; otherwise a
  buffer of exactly \<open>totalLength\<close> bytes is allocated, the chunks are copied into it in
  order (what does not fit is cut off) and the rest is filled with zero bytes. A negative
  length cannot be allocated and raises.
\<close>

definition Buffer_concat :: "buffer list \<Rightarrow> int \<Rightarrow> buffer completion" where
  "Buffer_concat list totalLength =
     (if list = [] then Returns []
      else if totalLength < 0 then Throws RangeError
      else Returns (take (nat totalLength)
                      (concat list @ replicate (nat totalLength - length (concat list)) 0)))"

text \<open>\<open>Buffer.byteLength(str)\<close>: the length of the UTF-8 encoding of a string. A surrogate
  pair is one four-byte character, a lone surrogate is encoded as the three-byte
  replacement character.\<close>

definition isHighSurrogate :: "16 word \<Rightarrow> bool" where
  "isHighSurrogate u = (0xD800 \<le> u \<and> u \<le> 0xDBFF)"

definition isLowSurrogate :: "16 word \<Rightarrow> bool" where
  "isLowSurrogate u = (0xDC00 \<le> u \<and> u \<le> 0xDFFF)"

fun byteLength :: "jsstring \<Rightarrow> int" where
  "byteLength [] = 0"
| "byteLength [u] = (if u < 0x80 then 1 else if u < 0x800 then 2 else 3)"
| "byteLength (u # v # us) =
     (if u < 0x80 then 1 + byteLength (v # us)
      else if u < 0x800 then 2 + byteLength (v # us)
      else if isHighSurrogate u \<and> isLowSurrogate v then 4 + byteLength us
      else 3 + byteLength (v # us))"

text \<open>\<open>str.substring(0, n)\<close>: a negative \<open>n\<close> is taken as 0, one beyond the end as the
  length.\<close>

definition substring0 :: "jsstring \<Rightarrow> int \<Rightarrow> jsstring" where
  "substring0 str n = take (nat n) str"

section \<open>The streaming insertion engine (class HtmlInsertionStream)\<close>

text \<open>The state of the platform's UTF-8 \<open>TextDecoder\<close>: the bytes of an incomplete
  character held over from the last streaming call, and whether the start of the stream
  has been passed (a byte order mark is dropped only there).\<close>

record decoder =
  pending :: buffer
  bomSeen :: bool

datatype token_kind = StartTag | EndTag | Comment | TextRun | Doctype

record token =
  kind :: token_kind
  tagName :: string
  startOffset :: int
  endOffset :: int

record engine =
  utf8Decoder :: decoder
  buffers :: "buffer list"
  stringBuffer :: jsstring
  len :: int
  writableOffset :: int
  writtenOffset :: int
  shouldParseHtml :: bool
  targetTagName :: string
  insertionChunk :: buffer
  insertToEnd :: bool
  insertionLength :: int
  anyTokenListeners :: bool
  tagListener :: bool
  stopped :: bool
  streamEnded :: bool
  emitted :: "js_error list"

definition new_engine :: "string \<Rightarrow> buffer \<Rightarrow> int \<Rightarrow> bool \<Rightarrow> engine" where
  "new_engine target chunk chunkLength toEnd =
     \<lparr> utf8Decoder = \<lparr> pending = [], bomSeen = False \<rparr>,
       buffers = [], stringBuffer = [], len = 0,
       writableOffset = 0, writtenOffset = 0, shouldParseHtml = False,
       targetTagName = target, insertionChunk = chunk, insertToEnd = toEnd,
       insertionLength = chunkLength,
       anyTokenListeners = True, tagListener = True, stopped = False,
       streamEnded = False, emitted = [] \<rparr>"

definition insertionEventName :: "engine \<Rightarrow> token_kind" where
  "insertionEventName s = (if insertToEnd s then EndTag else StartTag)"

text \<open>\<open>[push](data)\<close>: \<open>None\<close> is the \<open>null\<close> returned for an empty chunk.\<close>

definition push :: "buffer \<Rightarrow> engine \<Rightarrow> buffer option \<times> engine" where
  "push data s =
     (if length data = 0 then (None, s)
      else (Some data, s\<lparr> len := len s + int (length data), buffers := buffers s @ [data] \<rparr>))"

text \<open>\<open>[flush]()\<close>: a queue of one chunk is popped, any other queue is emptied and
  concatenated to the tracked length.\<close>

definition flush :: "engine \<Rightarrow> buffer completion \<times> engine" where
  "flush s =
     (if length (buffers s) = 1 then (Returns (last (buffers s)), s\<lparr> buffers := [] \<rparr>)
      else (Buffer_concat (buffers s) (len s), s\<lparr> buffers := [] \<rparr>))"

text \<open>
  The loop of \<open>getWritableBuffer\<close> over \<open>this.buffers.entries()\<close>: \<open>passed\<close> are the chunks
  already passed (\<open>arrIndex\<close> of them, \<open>index\<close> bytes), \<open>rest\<close> the chunks from \<open>arrIndex\<close> on.
  The result is what the call returns and the queue it leaves.
\<close>

fun writable_loop ::
  "int \<Rightarrow> int \<Rightarrow> buffer list \<Rightarrow> buffer list \<Rightarrow> buffer completion \<times> buffer list" where
  "writable_loop writableLen index passed [] = (Returns [], passed)"
| "writable_loop writableLen index passed (buf # rest) =
     (if index + int (length buf) = writableLen
        then (Buffer_concat (passed @ [buf]) writableLen, rest)
      else if index + int (length buf) > writableLen
        then (let sliceIndex = writableLen - index
              in (Buffer_concat (passed @ [slice2 buf 0 sliceIndex]) writableLen,
                  slice1 buf sliceIndex # rest))
      else writable_loop writableLen (index + int (length buf)) (passed @ [buf]) rest)"

definition getWritableBuffer :: "engine \<Rightarrow> buffer completion \<times> engine" where
  "getWritableBuffer s =
     (if writableOffset s \<noteq> 0
      then (let writableLen = writableOffset s - writtenOffset s;
                s1 = s\<lparr> writtenOffset := writableOffset s, writableOffset := 0,
                        len := len s - writableLen \<rparr>;
                (r, q) = writable_loop writableLen 0 [] (buffers s1)
            in (r, s1\<lparr> buffers := q \<rparr>))
      else (Returns [], s))"

subsection \<open>The UTF-8 decoder of the platform\<close>

text \<open>
  \<open>new TextDecoder('utf8', {fatal: true})\<close> is the platform's decoder, not code of the
  repository; it is modelled after the Encoding Standard. \<open>lead b\<close> gives, for the first
  byte of a multi-byte character, how many bytes follow, the range allowed for the first
  of them, and the bits the lead byte contributes.
\<close>

definition lead :: "byte \<Rightarrow> (nat \<times> byte \<times> byte \<times> nat) option" where
  "lead b =
     (if 0xC2 \<le> b \<and> b \<le> 0xDF then Some (1, 0x80, 0xBF, unat b - 0xC0)
      else if b = 0xE0 then Some (2, 0xA0, 0xBF, 0)
      else if b = 0xED then Some (2, 0x80, 0x9F, 0xD)
      else if 0xE1 \<le> b \<and> b \<le> 0xEF then Some (2, 0x80, 0xBF, unat b - 0xE0)
      else if b = 0xF0 then Some (3, 0x90, 0xBF, 0)
      else if b = 0xF4 then Some (3, 0x80, 0x8F, 4)
      else if 0xF1 \<le> b \<and> b \<le> 0xF3 then Some (3, 0x80, 0xBF, unat b - 0xF0)
      else None)"

fun continuation_ok :: "byte \<Rightarrow> byte \<Rightarrow> buffer \<Rightarrow> bool" where
  "continuation_ok lo hi [] = True"
| "continuation_ok lo hi (c # cs) = (lo \<le> c \<and> c \<le> hi \<and> continuation_ok 0x80 0xBF cs)"

definition code_point :: "nat \<Rightarrow> buffer \<Rightarrow> nat" where
  "code_point bits cs = foldl (\<lambda>acc c. acc * 64 + (unat c - 0x80)) bits cs"

definition utf16_units :: "nat \<Rightarrow> jsstring" where
  "utf16_units cp =
     (if cp < 0x10000 then [of_nat cp]
      else [of_nat (0xD800 + (cp - 0x10000) div 1024), of_nat (0xDC00 + (cp - 0x10000) mod 1024)])"

text \<open>The decoded code units and the bytes of a still incomplete last character;
  \<open>None\<close> when the bytes are not UTF-8.\<close>

function utf8_decode :: "buffer \<Rightarrow> (jsstring \<times> buffer) option" where
  "utf8_decode [] = Some ([], [])"
| "utf8_decode (b # bs) =
     (if b < 0x80
      then (case utf8_decode bs of None \<Rightarrow> None | Some (us, p) \<Rightarrow> Some (ucast b # us, p))
      else (case lead b of
              None \<Rightarrow> None
            | Some (n, lo, hi, bits) \<Rightarrow>
                if \<not> continuation_ok lo hi (take n bs) then None
                else if length bs < n then Some ([], b # bs)
                else (case utf8_decode (drop n bs) of
                        None \<Rightarrow> None
                      | Some (us, p) \<Rightarrow> Some (utf16_units (code_point bits (take n bs)) @ us, p))))"
  by pat_completeness auto
termination
  by (relation "measure length") auto

text \<open>
  \<open>decoder.decode(bytes, {stream})\<close>. With \<open>stream\<close> an incomplete last character is
  kept for the next call; without it the character is an error and the decoder starts
  afresh afterwards. A byte order mark at the start of the stream is not part of the
  result (\<open>ignoreBOM\<close> is left at its default). A failed call raises; what the decoder
  holds after a failed streaming call is not used by the engine and left as it was.
\<close>

definition TextDecoder_decode :: "decoder \<Rightarrow> buffer \<Rightarrow> bool \<Rightarrow> jsstring completion \<times> decoder" where
  "TextDecoder_decode d bytes stream =
     (let fresh = \<lparr> pending = [], bomSeen = False \<rparr>
      in case utf8_decode (pending d @ bytes) of
           None \<Rightarrow> (Throws DecodeError, if stream then d else fresh)
         | Some (us, rest) \<Rightarrow>
             if \<not> stream \<and> rest \<noteq> [] then (Throws DecodeError, fresh)
             else (let str = (if \<not> bomSeen d \<and> us \<noteq> [] \<and> hd us = 0xFEFF then tl us else us);
                       seen = (bomSeen d \<or> us \<noteq> [])
                   in (Returns str,
                       if stream then \<lparr> pending = rest, bomSeen = seen \<rparr> else fresh)))"

subsection \<open>Accepting bytes\<close>

text \<open>The \<open>encoding\<close> argument of a write: absent, a callback in its place, or a name.\<close>

datatype encoding_arg = NoEncoding | Callback | Encoding string

definition lower_ascii :: "char \<Rightarrow> char" where
  "lower_ascii c =
     (let n = (of_char c :: nat)
      in if 65 \<le> n \<and> n \<le> 90 then ''abcdefghijklmnopqrstuvwxyz'' ! (n - 65) else c)"

text \<open>\<open>utf8Re.test(encoding)\<close> for \<open>/utf-?8/ui\<close>: the name contains \<open>utf8\<close> or \<open>utf-8\<close>
  somewhere, in any case.\<close>

fun utf8Re_test :: "string \<Rightarrow> bool" where
  "utf8Re_test [] = False"
| "utf8Re_test (c # cs) =
     (let l = map lower_ascii (c # cs)
      in take 4 l = ''utf8'' \<or> take 5 l = ''utf-8'' \<or> utf8Re_test cs)"

text \<open>The condition of the first \<open>if\<close> of \<open>[internalWrite]\<close>; the empty name is falsy.\<close>

definition rejected_encoding :: "engine \<Rightarrow> encoding_arg \<Rightarrow> string option" where
  "rejected_encoding s enc =
     (case enc of
        Encoding e \<Rightarrow> if shouldParseHtml s \<and> e \<noteq> [] \<and> \<not> utf8Re_test e then Some e else None
      | _ \<Rightarrow> None)"

text \<open>
  The tokenizer is the external parse5 SAX parser. What it does with the text written to
  it is an input of the model: the tokens it reports during the call, in order, or, for a
  chunk the stream does not take, an \<open>error\<close> event or an exception.
\<close>

datatype parser_reaction = Tokens "token list" | StreamError | Raises

definition onAnyToken :: "token \<Rightarrow> engine \<Rightarrow> engine" where
  "onAnyToken t s = s\<lparr> writableOffset := byteLength (substring0 (stringBuffer s) (endOffset t)) \<rparr>"

text \<open>The loop of \<open>[onTag]\<close> over the chunks: \<open>index\<close> bytes lie before \<open>buf\<close>.\<close>

fun splice_loop :: "int \<Rightarrow> int \<Rightarrow> buffer \<Rightarrow> buffer list \<Rightarrow> buffer list" where
  "splice_loop insertionIndex index chunk [] = []"
| "splice_loop insertionIndex index chunk (buf # rest) =
     (if index + int (length buf) \<ge> insertionIndex
      then (let sliceIndex = insertionIndex - index
            in slice2 buf 0 sliceIndex # chunk # slice1 buf sliceIndex # rest)
      else buf # splice_loop insertionIndex (index + int (length buf)) chunk rest)"

definition insertionIndex_of :: "token \<Rightarrow> engine \<Rightarrow> int" where
  "insertionIndex_of t s =
     byteLength (substring0 (stringBuffer s) (if insertToEnd s then startOffset t else endOffset t))
       - writtenOffset s"

definition onTag :: "token \<Rightarrow> engine \<Rightarrow> engine" where
  "onTag t s =
     (if tagName t \<noteq> targetTagName s then s
      else (let s1 = s\<lparr> anyTokenListeners := False, tagListener := False, stopped := True,
                        shouldParseHtml := False \<rparr>;
                insertionIndex = insertionIndex_of t s1
            in s1\<lparr> buffers := splice_loop insertionIndex 0 (insertionChunk s1) (buffers s1),
                    len := len s1 + insertionLength s1,
                    streamEnded := True \<rparr>))"

text \<open>One token event: the listeners registered when the event is raised run in the order
  of their registration, \<open>[onAnyToken]\<close> before \<open>[onTag]\<close>.\<close>

definition dispatch :: "token \<Rightarrow> engine \<Rightarrow> engine" where
  "dispatch t s =
     (let s1 = (if anyTokenListeners s then onAnyToken t s else s)
      in if tagListener s \<and> kind t = insertionEventName s then onTag t s1 else s1)"

text \<open>A stopped parser reports no further token.\<close>

fun emit_tokens :: "token list \<Rightarrow> engine \<Rightarrow> engine" where
  "emit_tokens [] s = s"
| "emit_tokens (t # ts) s = (if stopped s then s else emit_tokens ts (dispatch t s))"

definition super_write :: "parser_reaction \<Rightarrow> engine \<Rightarrow> unit completion \<times> engine" where
  "super_write r s =
     (case r of
        Tokens ts \<Rightarrow> (Returns (), emit_tokens ts s)
      | StreamError \<Rightarrow> (Returns (), s\<lparr> emitted := emitted s @ [ERR_INVALID_CHUNK] \<rparr>)
      | Raises \<Rightarrow> (Throws ERR_INVALID_CHUNK, s))"

definition undefined_text :: jsstring where
  "undefined_text = map of_char ''undefined''"

text \<open>\<open>[internalWrite](data, encoding, isLast)\<close>. The boolean it returns is used by no
  caller and is left out.\<close>

definition internalWrite ::
  "buffer \<Rightarrow> encoding_arg \<Rightarrow> bool \<Rightarrow> parser_reaction \<Rightarrow> engine \<Rightarrow> unit completion \<times> engine" where
  "internalWrite data enc isLast r s =
     (case rejected_encoding s enc of
        Some e \<Rightarrow> (Returns (), s\<lparr> emitted := emitted s @ [ERR_INVALID_HTML_ENCODING e] \<rparr>)
      | None \<Rightarrow>
         (case push data s of
            (None, s1) \<Rightarrow> (Returns (), s1)
          | (Some _, s1) \<Rightarrow>
              (case TextDecoder_decode (utf8Decoder s1) data (\<not> isLast) of
                 (Returns str, d) \<Rightarrow>
                   super_write r (s1\<lparr> utf8Decoder := d, stringBuffer := stringBuffer s1 @ str \<rparr>)
               | (Throws err, d) \<Rightarrow>
                   super_write r
                     (s1\<lparr> utf8Decoder := d, emitted := emitted s1 @ [DecodeError],
                          stringBuffer := stringBuffer s1 @ undefined_text \<rparr>))))"

text \<open>\<open>write(data, encoding)\<close> and \<open>writeLast(data, encoding)\<close> of the class.\<close>

definition parser_write :: "buffer \<Rightarrow> encoding_arg \<Rightarrow> parser_reaction \<Rightarrow> engine \<Rightarrow> unit completion \<times> engine" where
  "parser_write data enc r s = internalWrite data enc False r s"

definition parser_writeLast :: "buffer \<Rightarrow> encoding_arg \<Rightarrow> parser_reaction \<Rightarrow> engine \<Rightarrow> unit completion \<times> engine" where
  "parser_writeLast data enc r s = internalWrite data enc True r s"

definition removeAnyTokenListeners :: "engine \<Rightarrow> engine" where
  "removeAnyTokenListeners s = s\<lparr> anyTokenListeners := False \<rparr>"

section \<open>The response interception layer (function main)\<close>

subsection \<open>Header values\<close>

text \<open>
  A header value is a number or a string. A number is a double: \<open>JInt i\<close> is the
  integer-valued one of value \<open>i\<close>, and every other number except \<open>NaN\<close> (a fraction, an
  infinity) is held by its printed form. The model computes with integers where doubles
  are exact, below \<open>2 ^ 53\<close> in magnitude; what the platform's arithmetic gives beyond
  that, and for the numbers held by their printed form, is taken from the platform.
\<close>

datatype js_number = JInt int | JNaN | JNonInteger string

datatype header_value = HNumber js_number | HString string

definition exact :: "int \<Rightarrow> bool" where
  "exact i = (- 9007199254740992 < i \<and> i < 9007199254740992)"

text \<open>
  What the program takes from libraries and from the platform: the media type that the
  \<open>content-type\<close> package parses out of a header value (\<open>None\<close> when it raises), the text
  \<open>util.inspect\<close> prints for a value, and, outside the exact range, the sum of a number and
  an integer, the number that \<open>parseInt\<close> reads from a string, and the digits printed for an
  integer-valued number.
\<close>

record platform =
  mediaType :: "header_value \<Rightarrow> string option"
  inspect :: "header_value \<Rightarrow> string"
  inexact_sum :: "js_number \<Rightarrow> int \<Rightarrow> js_number"
  inexact_parseInt :: "string \<Rightarrow> js_number"
  inexact_toString :: "int \<Rightarrow> string"

function decimal :: "nat \<Rightarrow> string" where
  "decimal n =
     (if n < 10 then [''0123456789'' ! n] else decimal (n div 10) @ [''0123456789'' ! (n mod 10)])"
  by pat_completeness auto
termination
  by (relation "measure id") auto

declare decimal.simps [simp del]

definition signed_decimal :: "int \<Rightarrow> string" where
  "signed_decimal i = (if i < 0 then CHR ''-'' # decimal (nat (- i)) else decimal (nat i))"

text \<open>The template literal \<open>`${value}`\<close>.\<close>

definition number_toString :: "platform \<Rightarrow> js_number \<Rightarrow> string" where
  "number_toString P n =
     (case n of
        JInt i \<Rightarrow> if exact i then signed_decimal i else inexact_toString P i
      | JNaN \<Rightarrow> ''NaN''
      | JNonInteger printed \<Rightarrow> printed)"

definition header_toString :: "platform \<Rightarrow> header_value \<Rightarrow> string" where
  "header_toString P v = (case v of HNumber n \<Rightarrow> number_toString P n | HString str \<Rightarrow> str)"

definition isDigit :: "char \<Rightarrow> bool" where
  "isDigit c = (48 \<le> (of_char c :: nat) \<and> (of_char c :: nat) \<le> 57)"

definition isWhiteSpace :: "char \<Rightarrow> bool" where
  "isWhiteSpace c = ((of_char c :: nat) \<in> {9, 10, 11, 12, 13, 32, 160})"

definition digits_value :: "string \<Rightarrow> int" where
  "digits_value ds = foldl (\<lambda>acc c. acc * 10 + (int (of_char c) - 48)) 0 ds"

text \<open>\<open>parseInt(str, 10)\<close>: leading white space, a sign, and the longest run of digits.
  Digits that stand for a value outside the exact range are read by the platform.\<close>

definition parseInt10 :: "platform \<Rightarrow> string \<Rightarrow> js_number" where
  "parseInt10 P str =
     (let s1 = dropWhile isWhiteSpace str;
          negative = (s1 \<noteq> [] \<and> hd s1 = CHR ''-'');
          s2 = (if s1 \<noteq> [] \<and> (hd s1 = CHR ''-'' \<or> hd s1 = CHR ''+'') then tl s1 else s1);
          ds = takeWhile isDigit s2
      in if ds = [] then JNaN
         else if exact (digits_value ds)
         then JInt (if negative then - digits_value ds else digits_value ds)
         else inexact_parseInt P str)"

text \<open>\<open>/\D/u.test(str)\<close>.\<close>

definition has_non_digit :: "string \<Rightarrow> bool" where
  "has_non_digit str = (filter (\<lambda>c. \<not> isDigit c) str \<noteq> [])"

text \<open>\<open>number + insertionLength\<close>: exact where both and their sum are in the exact range,
  \<open>NaN\<close> for \<open>NaN\<close>, and the platform's sum otherwise.\<close>

definition js_add :: "platform \<Rightarrow> js_number \<Rightarrow> int \<Rightarrow> js_number" where
  "js_add P n k =
     (case n of
        JInt i \<Rightarrow> if exact i \<and> exact k \<and> exact (i + k) then JInt (i + k) else inexact_sum P n k
      | JNaN \<Rightarrow> JNaN
      | JNonInteger printed \<Rightarrow> inexact_sum P n k)"

text \<open>\<open>value !== number\<close> for a header value: a string and an absent header differ from
  every number, \<open>NaN\<close> differs from every number, and two other numbers differ when their
  values do (the printed form of a number determines it).\<close>

definition strict_neq :: "header_value option \<Rightarrow> js_number \<Rightarrow> bool" where
  "strict_neq v n =
     (case v of
        Some (HNumber a) \<Rightarrow> a = JNaN \<or> a \<noteq> n
      | _ \<Rightarrow> True)"

subsection \<open>The response\<close>

datatype transport_call = OrigWrite buffer | OrigEnd "buffer option"

datatype write_method = Wrapper | InnerWrite | Original

text \<open>
  The response object with what \<open>main\<close> closes over. \<open>sent\<close> lists the calls of the
  original \<open>write\<close> and \<open>end\<close>, \<open>errors\<close> the \<open>error\<close> events of the response;
  \<open>setHeaderPatched\<close>, \<open>writeMethod\<close> and \<open>endPatched\<close> say which function each method
  of the response is at the moment. Header names are the lower-case names the response
  stores. The listeners of the caller only observe the events.
\<close>

record response =
  headers :: "string \<rightharpoonup> header_value"
  headersSent :: bool
  sent :: "transport_call list"
  errors :: "js_error list"
  setHeaderPatched :: bool
  writeMethod :: write_method
  endPatched :: bool
  etag :: string
  parser :: engine
  destroyed :: bool

definition CONTENT_LENGTH_ERROR :: string where
  "CONTENT_LENGTH_ERROR = ''According to RFC7230, content-length header must be a non-negative integer https://tools.ietf.org/html/rfc7230#section-3.3.2''"

definition restoreOriginalMethods :: "response \<Rightarrow> response" where
  "restoreOriginalMethods res =
     res\<lparr> setHeaderPatched := False, writeMethod := Original, endPatched := False \<rparr>"

text \<open>\<open>res.emit('error', err)\<close>: \<open>restoreOriginalMethods\<close> is the first listener.\<close>

definition emit_error :: "js_error \<Rightarrow> response \<Rightarrow> response" where
  "emit_error err res = (restoreOriginalMethods res)\<lparr> errors := errors res @ [err] \<rparr>"

text \<open>The listener that \<open>main\<close> puts on the parser passes each of its \<open>error\<close> events on
  to the response: \<open>known\<close> of them were there before the call.\<close>

definition forward_errors :: "nat \<Rightarrow> response \<Rightarrow> response" where
  "forward_errors known res = fold emit_error (drop known (emitted (parser res))) res"

definition originalSetHeader :: "string \<Rightarrow> header_value \<Rightarrow> response \<Rightarrow> response" where
  "originalSetHeader name v res = res\<lparr> headers := (headers res)(map lower_ascii name \<mapsto> v) \<rparr>"

definition originalWrite :: "buffer \<Rightarrow> response \<Rightarrow> response" where
  "originalWrite data res = res\<lparr> sent := sent res @ [OrigWrite data], headersSent := True \<rparr>"

definition originalEnd :: "buffer option \<Rightarrow> response \<Rightarrow> response" where
  "originalEnd data res = res\<lparr> sent := sent res @ [OrigEnd data], headersSent := True \<rparr>"

definition hasHtmlContentType :: "platform \<Rightarrow> response \<Rightarrow> bool \<times> response" where
  "hasHtmlContentType P res =
     (case headers res ''content-type'' of
        None \<Rightarrow> (False, emit_error ContentTypeError res)
      | Some v \<Rightarrow>
          (case mediaType P v of
             Some ty \<Rightarrow> (ty = ''text/html'', res)
           | None \<Rightarrow> (False, emit_error ContentTypeError res)))"

definition content_length_message :: "platform \<Rightarrow> header_value \<Rightarrow> string" where
  "content_length_message P v = CONTENT_LENGTH_ERROR @ '', but it was '' @ inspect P v @ ''.''"

definition reject_content_length :: "platform \<Rightarrow> header_value \<Rightarrow> response \<Rightarrow> response" where
  "reject_content_length P v res =
     emit_error (ContentLengthError (content_length_message P v))
       (res\<lparr> headers := (headers res)(''content-length'' := None) \<rparr>)"

definition adjustContentLength :: "platform \<Rightarrow> header_value \<Rightarrow> response \<Rightarrow> response" where
  "adjustContentLength P originalContentLengthHeaderValue res =
     (let set_length = (\<lambda>originalContentLength.
            if shouldParseHtml (parser res)
               \<and> strict_neq (headers res ''content-length'')
                    (js_add P originalContentLength (insertionLength (parser res)))
            then originalSetHeader ''content-length''
                   (HString (number_toString P
                      (js_add P originalContentLength (insertionLength (parser res))))) res
            else res)
      in case originalContentLengthHeaderValue of
           HNumber n \<Rightarrow>
             (case n of
                JInt i \<Rightarrow>
                  if i < 0 then reject_content_length P originalContentLengthHeaderValue res
                  else set_length n
              | _ \<Rightarrow> reject_content_length P originalContentLengthHeaderValue res)
         | HString str \<Rightarrow>
             if has_non_digit str then reject_content_length P originalContentLengthHeaderValue res
             else set_length (parseInt10 P str))"

definition updateHeaders :: "platform \<Rightarrow> response \<Rightarrow> response" where
  "updateHeaders P res =
     (let r1 = (if headers res ''content-type'' \<noteq> None
                then (let (html, r) = hasHtmlContentType P res
                      in r\<lparr> parser := (parser r)\<lparr> shouldParseHtml := html \<rparr> \<rparr>)
                else res);
          r2 = (case headers r1 ''content-length'' of
                  Some v \<Rightarrow> adjustContentLength P v r1
                | None \<Rightarrow> r1)
      in case headers r2 ''etag'' of
           Some v \<Rightarrow>
             if length (etag r2) \<noteq> 0 \<and> shouldParseHtml (parser r2)
             then (originalSetHeader ''etag'' (HString (header_toString P v @ etag r2)) r2)\<lparr> etag := [] \<rparr>
             else r2
         | None \<Rightarrow> r2)"

text \<open>\<open>res.setHeader(name, value)\<close> as the caller reaches it.\<close>

definition setHeader :: "platform \<Rightarrow> string \<Rightarrow> header_value \<Rightarrow> response \<Rightarrow> response" where
  "setHeader P name v res =
     (if setHeaderPatched res then updateHeaders P (originalSetHeader name v res)
      else originalSetHeader name v res)"

subsection \<open>The wrappers of write and end\<close>

text \<open>
  The body data of the model are buffers (a string is turned into one by \<open>Buffer.from\<close>
  before anything else happens to it), and no callback is passed. Each call has the
  reaction of the tokenizer to the text it may be given as an input.
\<close>

text \<open>The function \<open>write\<close> inside \<open>main\<close>.\<close>

definition inner_write ::
  "buffer \<Rightarrow> encoding_arg \<Rightarrow> parser_reaction \<Rightarrow> response \<Rightarrow> unit completion \<times> response" where
  "inner_write data enc r res =
     (if shouldParseHtml (parser res)
      then (let known = length (emitted (parser res));
                (c, e1) = parser_write data enc r (parser res);
                res1 = forward_errors known (res\<lparr> parser := e1 \<rparr>)
            in case c of
                 Throws err \<Rightarrow> (Throws err, res1)
               | Returns _ \<Rightarrow>
                   (let (wb, e2) = getWritableBuffer (parser res1);
                        res2 = res1\<lparr> parser := e2 \<rparr>
                    in case wb of
                         Throws err \<Rightarrow> (Throws err, res2)
                       | Returns writableBuffer \<Rightarrow>
                           (Returns (),
                            if length writableBuffer \<noteq> 0 then originalWrite writableBuffer res2
                            else res2)))
      else (let res1 = restoreOriginalMethods res;
                queued = buffers (parser res1);
                res2 = res1\<lparr> parser := (parser res1)\<lparr> buffers := [] \<rparr> \<rparr>
            in case Buffer_concat (queued @ [data]) (len (parser res1) + int (length data)) of
                 Throws err \<Rightarrow> (Throws err, res2)
               | Returns b \<Rightarrow> (Returns (), originalWrite b res2)))"

text \<open>\<open>res.write(data, encoding)\<close> as the caller reaches it.\<close>

definition res_write ::
  "buffer \<Rightarrow> encoding_arg \<Rightarrow> parser_reaction \<Rightarrow> response \<Rightarrow> unit completion \<times> response" where
  "res_write data enc r res =
     (case writeMethod res of
        Original \<Rightarrow> (Returns (), originalWrite data res)
      | InnerWrite \<Rightarrow> inner_write data enc r res
      | Wrapper \<Rightarrow>
          (let res1 = res\<lparr> setHeaderPatched := False \<rparr>;
               res2 = (if \<not> headersSent res1 then res1\<lparr> headersSent := True \<rparr> else res1)
           in if \<not> shouldParseHtml (parser res2)
              then (Returns (),
                    originalWrite data
                      (res2\<lparr> writeMethod := Original, endPatched := False, destroyed := True \<rparr>))
              else inner_write data enc r (res2\<lparr> writeMethod := InnerWrite \<rparr>)))"

text \<open>\<open>res.end(data, encoding)\<close> as the caller reaches it; \<open>None\<close> is a call without
  data.\<close>

definition res_end ::
  "buffer option \<Rightarrow> encoding_arg \<Rightarrow> parser_reaction \<Rightarrow> response \<Rightarrow> unit completion \<times> response" where
  "res_end data enc r res =
     (if \<not> endPatched res then (Returns (), originalEnd data res)
      else (let res1 = restoreOriginalMethods res;
                res2 = res1\<lparr> parser := removeAnyTokenListeners (parser res1) \<rparr>
            in if buffers (parser res2) = [] \<and> \<not> shouldParseHtml (parser res2)
               then (Returns (), originalEnd data (res2\<lparr> destroyed := True \<rparr>))
               else (let d = (case data of None \<Rightarrow> [] | Some b \<Rightarrow> b);
                         known = length (emitted (parser res2));
                         (c, e1) = (if shouldParseHtml (parser res2)
                                    then parser_writeLast d enc r (parser res2)
                                    else (Returns (), snd (push d (parser res2))));
                         res3 = forward_errors known (res2\<lparr> parser := e1 \<rparr>)
                     in case c of
                          Throws err \<Rightarrow> (Throws err, res3)
                        | Returns _ \<Rightarrow>
                            (let (f, e2) = flush (parser res3);
                                 res4 = res3\<lparr> parser := e2 \<rparr>
                             in case f of
                                  Throws err \<Rightarrow> (Throws err, res4)
                                | Returns b \<Rightarrow>
                                    (Returns (), (originalEnd (Some b) res4)\<lparr> destroyed := True \<rparr>)))))"

text \<open>
  \<open>main(res, insertionChunk, insertionLength, etag, targetTagName, insertToEnd)\<close>. The
  temporary header that \<open>ensureResponseSetHeaderWorks\<close> sets and removes leaves the
  headers as they were. The first \<open>updateHeaders()\<close> runs before the methods are replaced.
\<close>

definition main ::
  "platform \<Rightarrow> buffer \<Rightarrow> int \<Rightarrow> string \<Rightarrow> string \<Rightarrow> bool \<Rightarrow> response \<Rightarrow> response" where
  "main P chunk chunkLength tag target toEnd res =
     (if headersSent res then res
      else (updateHeaders P
              (res\<lparr> parser := new_engine target chunk chunkLength toEnd, etag := tag \<rparr>))
             \<lparr> setHeaderPatched := True, writeMethod := Wrapper, endPatched := True \<rparr>)"

text \<open>A response on which nothing has happened yet.\<close>

definition fresh_response :: response where
  "fresh_response =
     \<lparr> headers = Map.empty, headersSent = False, sent = [], errors = [],
       setHeaderPatched = False, writeMethod = Original, endPatched = False,
       etag = [], parser = new_engine [] [] 0 False, destroyed = False \<rparr>"

text \<open>The body that went to the transport: the data of the original calls, in order.\<close>

definition delivered :: "response \<Rightarrow> buffer" where
  "delivered res =
     concat (map (\<lambda>c. case c of OrigWrite b \<Rightarrow> b | OrigEnd None \<Rightarrow> [] | OrigEnd (Some b) \<Rightarrow> b)
               (sent res))"

section \<open>Example data\<close>

text \<open>The running total of a queue: the number of bytes in its chunks.\<close>

definition total :: "buffer list \<Rightarrow> int" where
  "total bs = int (length (concat bs))"

text \<open>
  A platform for the examples: the media type is the lower-case text before the first
  semicolon, and a string is printed between single quotes. On the header values of the
  examples this is what the libraries give; all their numbers are in the exact range, so
  that the last three fields are never asked.
\<close>

definition example_platform :: platform where
  "example_platform =
     \<lparr> mediaType = (\<lambda>v. case v of
                          HString str \<Rightarrow> Some (map lower_ascii (takeWhile (\<lambda>c. c \<noteq> CHR '';'') str))
                        | HNumber n \<Rightarrow> None),
       inspect = (\<lambda>v. case v of
                        HString str \<Rightarrow> [CHR 0x27] @ str @ [CHR 0x27]
                      | HNumber (JInt i) \<Rightarrow> signed_decimal i
                      | HNumber JNaN \<Rightarrow> ''NaN''
                      | HNumber (JNonInteger printed) \<Rightarrow> printed),
       inexact_sum = (\<lambda>n k. JNonInteger ''Infinity''),
       inexact_parseInt = (\<lambda>str. JNonInteger ''Infinity''),
       inexact_toString = (\<lambda>i. ''Infinity'') \<rparr>"

definition tok :: "token_kind \<Rightarrow> string \<Rightarrow> int \<Rightarrow> int \<Rightarrow> token" where
  "tok k name a b = \<lparr> kind = k, tagName = name, startOffset = a, endOffset = b \<rparr>"

definition bytes_of :: "string \<Rightarrow> buffer" where
  "bytes_of str = map of_char str"

text \<open>A response with \<open>content-type: text/html\<close> on which the insertion of \<open>payload\<close> at
  the \<open>body\<close> tag has been requested.\<close>

definition html_response :: "string \<Rightarrow> bool \<Rightarrow> response" where
  "html_response payload toEnd =
     main example_platform (bytes_of payload) (int (length payload)) [] ''body'' toEnd
       (setHeader example_platform ''content-type'' (HString ''text/html'') fresh_response)"

definition splice_example :: engine where
  "splice_example =
     (new_engine ''p'' [0x5A] 1 False)
       \<lparr> buffers := [[0x3C], [0x70, 0x3E, 0x41]], stringBuffer := [0x3C, 0x70, 0x3E, 0x41],
         len := 4 \<rparr>"

text \<open>The queue \<open><p>\<close>, \<open>A</p>\<close> of an engine that inserts before the close tag.\<close>

definition splice_example_end :: engine where
  "splice_example_end =
     (new_engine ''p'' [0x5A] 1 True)
       \<lparr> buffers := [[0x3C, 0x70, 0x3E], [0x41, 0x3C, 0x2F, 0x70, 0x3E]],
         stringBuffer := [0x3C, 0x70, 0x3E, 0x41, 0x3C, 0x2F, 0x70, 0x3E], len := 8 \<rparr>"

definition html_engine :: engine where
  "html_engine = (new_engine ''body'' [0x5F] 1 False)\<lparr> shouldParseHtml := True \<rparr>"

section \<open>Runs of the engine\<close>

text \<open>
  The operations that the interception layer performs on one engine, and what a sequence
  of them leaves: the engine, the bytes accepted so far, and the bytes that
  \<open>getWritableBuffer\<close> has released so far.
\<close>

datatype op =
    Write buffer encoding_arg parser_reaction
  | WriteLast buffer encoding_arg parser_reaction
  | GetWritableBuffer
  | RemoveAnyTokenListeners
  | Push buffer
  | SetShouldParseHtml bool

definition step :: "op \<Rightarrow> engine \<Rightarrow> engine" where
  "step operation s =
     (case operation of
        Write data enc r \<Rightarrow> snd (parser_write data enc r s)
      | WriteLast data enc r \<Rightarrow> snd (parser_writeLast data enc r s)
      | GetWritableBuffer \<Rightarrow> snd (getWritableBuffer s)
      | RemoveAnyTokenListeners \<Rightarrow> removeAnyTokenListeners s
      | Push data \<Rightarrow> snd (push data s)
      | SetShouldParseHtml b \<Rightarrow> s\<lparr> shouldParseHtml := b \<rparr>)"

definition accepted_bytes :: "op \<Rightarrow> engine \<Rightarrow> buffer" where
  "accepted_bytes operation s =
     (case operation of
        Write data enc r \<Rightarrow> (case rejected_encoding s enc of None \<Rightarrow> data | Some e \<Rightarrow> [])
      | WriteLast data enc r \<Rightarrow> (case rejected_encoding s enc of None \<Rightarrow> data | Some e \<Rightarrow> [])
      | Push data \<Rightarrow> data
      | _ \<Rightarrow> [])"

definition released_bytes :: "op \<Rightarrow> engine \<Rightarrow> buffer" where
  "released_bytes operation s =
     (case operation of
        GetWritableBuffer \<Rightarrow> (case fst (getWritableBuffer s) of Returns b \<Rightarrow> b | Throws e \<Rightarrow> [])
      | _ \<Rightarrow> [])"

fun run :: "op list \<Rightarrow> engine \<times> buffer \<times> buffer \<Rightarrow> engine \<times> buffer \<times> buffer" where
  "run [] x = x"
| "run (operation # ops) (s, acc, rel) =
     run ops (step operation s, acc @ accepted_bytes operation s, rel @ released_bytes operation s)"

text \<open>
  What is assumed of the tokenizer: it takes the text of every write and answers with
  tokens, and the end offsets of its tokens never decrease.
\<close>

definition tokens_of :: "op \<Rightarrow> token list" where
  "tokens_of operation =
     (case operation of
        Write data enc (Tokens ts) \<Rightarrow> ts
      | WriteLast data enc (Tokens ts) \<Rightarrow> ts
      | _ \<Rightarrow> [])"

definition tokenizer_answers :: "op \<Rightarrow> bool" where
  "tokenizer_answers operation =
     (case operation of
        Write data enc r \<Rightarrow> (case r of Tokens ts \<Rightarrow> True | _ \<Rightarrow> False)
      | WriteLast data enc r \<Rightarrow> (case r of Tokens ts \<Rightarrow> True | _ \<Rightarrow> False)
      | _ \<Rightarrow> True)"

definition ends :: "op list \<Rightarrow> int list" where
  "ends ops = concat (map (\<lambda>operation. map endOffset (tokens_of operation)) ops)"

text \<open>A string of UTF-16 code units that does not stop after the first half of a
  surrogate pair; the decoder only produces such strings.\<close>

fun closed :: "jsstring \<Rightarrow> bool" where
  "closed [] = True"
| "closed [u] = (\<not> isHighSurrogate u)"
| "closed (u # v # us) =
     (if isHighSurrogate u \<and> isLowSurrogate v then closed us else closed (v # us))"

text \<open>The invariants of a run. \<open>g\<close> is the text offset of the last token that moved
  \<open>writableOffset\<close>.\<close>

definition text_mark :: "nat \<Rightarrow> engine \<Rightarrow> int" where
  "text_mark g s = byteLength (take g (stringBuffer s))"

definition offsets_ok :: "nat \<Rightarrow> engine \<Rightarrow> bool" where
  "offsets_ok g s =
     (g \<le> length (stringBuffer s) \<and> 0 \<le> writtenOffset s \<and> writtenOffset s \<le> text_mark g s
      \<and> (writableOffset s = 0 \<or> writableOffset s = text_mark g s))"

definition text_ok :: "engine \<Rightarrow> buffer \<Rightarrow> bool" where
  "text_ok s acc =
     (closed (stringBuffer s)
      \<and> byteLength (stringBuffer s) + int (length (pending (utf8Decoder s))) \<le> int (length acc))"

definition queue_ok :: "engine \<Rightarrow> buffer \<Rightarrow> buffer \<Rightarrow> bool" where
  "queue_ok s acc rel =
     (stopped s
      \<or> (len s = total (buffers s) \<and> rel @ concat (buffers s) = acc
          \<and> writtenOffset s = int (length rel)))"

text \<open>Two runs for the examples: a write whose token is released at once, and a body
  without the target tag that is written in three pieces.\<close>

definition release_ops :: "op list" where
  "release_ops =
     [Write (bytes_of ''<p>'') NoEncoding (Tokens [tok StartTag ''p'' 0 3]), GetWritableBuffer]"

definition release_example :: "engine \<times> buffer \<times> buffer" where
  "release_example = run release_ops (new_engine ''body'' [0x5A] 1 False, [], [])"

definition pass_ops :: "op list" where
  "pass_ops =
     [Write (bytes_of ''<p>'') NoEncoding (Tokens [tok StartTag ''p'' 0 3]),
      GetWritableBuffer,
      Write (bytes_of ''hi'') NoEncoding (Tokens []),
      RemoveAnyTokenListeners,
      WriteLast (bytes_of ''!'') NoEncoding (Tokens [tok TextRun [] 3 6])]"

definition pass_example :: "engine \<times> buffer \<times> buffer" where
  "pass_example = run pass_ops (new_engine ''body'' [0x5A] 1 False, [], [])"

section \<open>Evaluating the model\<close>

lemmas engine_defs =
  new_engine_def parser_write_def parser_writeLast_def internalWrite_def rejected_encoding_def
  push_def TextDecoder_decode_def lead_def utf16_units_def code_point_def super_write_def
  dispatch_def onTag_def onAnyToken_def insertionEventName_def insertionIndex_of_def
  substring0_def slice1_def slice2_def adjustOffset_def flush_def Buffer_concat_def
  undefined_text_def removeAnyTokenListeners_def getWritableBuffer_def lower_ascii_def
  isHighSurrogate_def isLowSurrogate_def

lemmas response_defs =
  html_response_def main_def setHeader_def fresh_response_def updateHeaders_def
  originalSetHeader_def hasHtmlContentType_def example_platform_def bytes_of_def tok_def
  res_end_def res_write_def inner_write_def restoreOriginalMethods_def forward_errors_def
  originalEnd_def originalWrite_def delivered_def emit_error_def adjustContentLength_def
  reject_content_length_def content_length_message_def strict_neq_def js_add_def
  number_toString_def header_toString_def parseInt10_def has_non_digit_def isDigit_def
  isWhiteSpace_def digits_value_def decimal.simps exact_def signed_decimal_def

lemma html_response_eq:
  "html_response payload toEnd =
     \<lparr> headers = [''content-type'' \<mapsto> HString ''text/html''], headersSent = False,
       sent = [], errors = [], setHeaderPatched = True, writeMethod = Wrapper,
       endPatched = True, etag = [],
       parser = (new_engine ''body'' (bytes_of payload) (int (length payload)) toEnd)
                  \<lparr> shouldParseHtml := True \<rparr>,
       destroyed = False \<rparr>"
  by (simp add: response_defs engine_defs)

text \<open>The scenarios of the specification: insertion after the open tag, insertion before
  the close tag, and a body that arrives in two writes.\<close>

lemma scenario_insert_first:
  "delivered (snd (res_end (Some (bytes_of ''<html><body><h2>Hi</h2></body></html>'')) NoEncoding
       (Tokens [tok StartTag ''html'' 0 6, tok StartTag ''body'' 6 12, tok StartTag ''h2'' 12 16])
       (html_response ''<h1>X</h1>'' False)))
   = bytes_of ''<html><body><h1>X</h1><h2>Hi</h2></body></html>''"
  unfolding html_response_eq by (simp add: response_defs engine_defs Let_def)

lemma scenario_insert_last:
  "delivered (snd (res_end (Some (bytes_of ''<html><body><h2>Hi</h2></body></html>'')) NoEncoding
       (Tokens [tok StartTag ''html'' 0 6, tok StartTag ''body'' 6 12, tok StartTag ''h2'' 12 16,
                tok TextRun [] 16 18, tok EndTag ''h2'' 18 23, tok EndTag ''body'' 23 30,
                tok EndTag ''html'' 30 37])
       (html_response ''<h1>X</h1>'' True)))
   = bytes_of ''<html><body><h2>Hi</h2><h1>X</h1></body></html>''"
  unfolding html_response_eq by (simp add: response_defs engine_defs Let_def)

lemma scenario_two_writes:
  "delivered (snd (res_end (Some (bytes_of ''l><body></body></html>'')) NoEncoding
       (Tokens [tok StartTag ''html'' 0 6, tok StartTag ''body'' 6 12, tok EndTag ''body'' 12 19])
       (snd (res_write (bytes_of ''<htm'') NoEncoding (Tokens []) (html_response ''Z'' False)))))
   = bytes_of ''<html><body>Z</body></html>''"
  unfolding html_response_eq by (simp add: response_defs engine_defs Let_def)

text \<open>A two-byte character whose bytes arrive in different writes: the first byte waits
  in the decoder, and only the bytes before it are released by the first write.\<close>

lemma scenario_split_character:
  "sent (snd (res_end None NoEncoding (Tokens [])
       (snd (res_write ([0xA2] @ bytes_of ''</p><body>'') NoEncoding
               (Tokens [tok TextRun [] 3 4, tok EndTag ''p'' 4 8, tok StartTag ''body'' 8 14])
          (snd (res_write (bytes_of ''<p>'' @ [0xC2]) NoEncoding (Tokens [tok StartTag ''p'' 0 3])
                  (html_response ''Z'' False)))))))
   = [OrigWrite (bytes_of ''<p>''), OrigWrite ([0xC2, 0xA2] @ bytes_of ''</p><body>''),
      OrigEnd (Some (bytes_of ''Z''))]"
  unfolding html_response_eq by (simp add: response_defs engine_defs Let_def)

section \<open>Releasing the safe prefix\<close>

lemma getWritableBuffer_resets: "writableOffset (snd (getWritableBuffer s)) = 0"
  by (simp add: getWritableBuffer_def Let_def split: prod.splits)

text \<open>
  Claim C4. A call of \<open>getWritableBuffer\<close> that directly follows another one, with nothing
  accepted in between, returns the empty buffer and leaves the engine as the first call
  left it.
\<close>

theorem getWritableBuffer_twice:
  "getWritableBuffer (snd (getWritableBuffer s)) = (Returns [], snd (getWritableBuffer s))"
  using getWritableBuffer_resets [of s] by (simp add: getWritableBuffer_def)

section \<open>The splice\<close>

lemma slice2_prefix: "0 \<le> j \<Longrightarrow> j \<le> int (length b) \<Longrightarrow> slice2 b 0 j = take (nat j) b"
  by (auto simp: slice2_def adjustOffset_def Let_def)

lemma slice1_suffix: "0 \<le> j \<Longrightarrow> j \<le> int (length b) \<Longrightarrow> slice1 b j = drop (nat j) b"
  by (auto simp: slice1_def adjustOffset_def Let_def)

lemma total_Cons: "total (b # bs) = int (length b) + total bs"
  by (simp add: total_def)

lemma total_Nil: "total [] = 0"
  by (simp add: total_def)

lemma splice_loop_at:
  "k < length bufs \<Longrightarrow> index + total (take (Suc k) bufs) \<ge> i \<Longrightarrow>
   (\<forall>j<k. index + total (take (Suc j) bufs) < i) \<Longrightarrow>
   splice_loop i index c bufs =
     take k bufs @ [slice2 (bufs ! k) 0 (i - (index + total (take k bufs))), c,
                    slice1 (bufs ! k) (i - (index + total (take k bufs)))] @ drop (Suc k) bufs"
proof (induction bufs arbitrary: k index)
  case Nil
  then show ?case by simp
next
  case (Cons b bufs)
  show ?case
  proof (cases k)
    case 0
    with Cons.prems show ?thesis by (simp add: total_Cons total_Nil Let_def)
  next
    case (Suc m)
    have first: "index + int (length b) < i"
      using Cons.prems(3) [rule_format, of 0] Suc by (simp add: total_Cons total_Nil)
    have m: "m < length bufs" using Cons.prems(1) Suc by simp
    have reach: "(index + int (length b)) + total (take (Suc m) bufs) \<ge> i"
      using Cons.prems(2) Suc by (simp add: total_Cons)
    have earlier: "\<forall>j<m. (index + int (length b)) + total (take (Suc j) bufs) < i"
    proof (intro allI impI)
      fix j assume "j < m"
      then have "Suc j < k" using Suc by simp
      from Cons.prems(3) [rule_format, OF this]
      show "(index + int (length b)) + total (take (Suc j) bufs) < i"
        by (simp add: total_Cons)
    qed
    from Cons.IH [OF m reach earlier] first Suc show ?thesis
      by (simp add: total_Cons add.assoc)
  qed
qed

text \<open>What \<open>[onTag]\<close> does to the queue for a token that has the name of the target tag,
  with the insertion index inside the queue.\<close>

lemma onTag_split:
  assumes "tagName t = targetTagName s"
    and "i = byteLength (substring0 (stringBuffer s)
                (if insertToEnd s then startOffset t else endOffset t)) - writtenOffset s"
    and "0 \<le> i"
    and "k < length (buffers s)"
    and "i \<le> total (take (Suc k) (buffers s))"
    and "\<forall>j<k. total (take (Suc j) (buffers s)) < i"
    and "local = nat (i - total (take k (buffers s)))"
  shows "buffers (onTag t s) =
           take k (buffers s)
           @ [take local (buffers s ! k), insertionChunk s, drop local (buffers s ! k)]
           @ drop (Suc k) (buffers s)
         \<and> len (onTag t s) = len s + insertionLength s"
proof -
  let ?bufs = "buffers s"
  have lo: "0 \<le> i - total (take k ?bufs)"
  proof (cases k)
    case 0
    then show ?thesis using assms(3) by (simp add: total_Nil)
  next
    case (Suc m)
    then have "total (take (Suc m) ?bufs) < i" using assms(6) by simp
    then show ?thesis using Suc by simp
  qed
  have "total (take (Suc k) ?bufs) = total (take k ?bufs) + int (length (?bufs ! k))"
    using assms(4) by (simp add: take_Suc_conv_app_nth total_def)
  then have hi: "i - total (take k ?bufs) \<le> int (length (?bufs ! k))"
    using assms(5) by simp
  have "splice_loop i 0 (insertionChunk s) ?bufs =
          take k ?bufs @ [slice2 (?bufs ! k) 0 (i - (0 + total (take k ?bufs))), insertionChunk s,
                          slice1 (?bufs ! k) (i - (0 + total (take k ?bufs)))] @ drop (Suc k) ?bufs"
    using assms(4,5,6) by (intro splice_loop_at) simp_all
  then show ?thesis
    using assms(1,2,7) lo hi
    by (simp add: onTag_def insertionIndex_of_def Let_def slice2_prefix slice1_suffix)
qed

text \<open>A token of the other kind or of another name leaves the queue as it is.\<close>

lemma dispatch_other_token:
  assumes "\<not> tagListener s \<or> kind t \<noteq> (if insertToEnd s then EndTag else StartTag)
           \<or> tagName t \<noteq> targetTagName s"
  shows "buffers (dispatch t s) = buffers s \<and> len (dispatch t s) = len s"
  using assms
  by (auto simp: dispatch_def Let_def insertionEventName_def onTag_def onAnyToken_def)

text \<open>
  Claim C9. The token that fires the splice is the close tag of the target with
  \<open>insertToEnd\<close> and its open tag without; \<open>boundary\<close> is the start offset of the close tag,
  respectively the end offset of the open tag, and \<open>i\<close> is the byte length of the decoded
  text up to \<open>boundary\<close> minus \<open>writtenOffset\<close>. With \<open>k\<close> the first chunk at which the running
  total reaches \<open>i\<close>, that chunk is split at \<open>i\<close> minus the total before it and replaced
  by its prefix, the payload and its suffix, and the tracked length grows by the length of
  the payload. (The index is taken inside the queue: \<open>0 \<le> i\<close>, and some chunk reaches it.)
\<close>

theorem dispatch_splice:
  assumes "tagListener s"
    and "kind t = (if insertToEnd s then EndTag else StartTag)"
    and "tagName t = targetTagName s"
    and "boundary = (if insertToEnd s then startOffset t else endOffset t)"
    and "i = byteLength (substring0 (stringBuffer s) boundary) - writtenOffset s"
    and "0 \<le> i"
    and "k < length (buffers s)"
    and "i \<le> total (take (Suc k) (buffers s))"
    and "\<forall>j<k. total (take (Suc j) (buffers s)) < i"
    and "local = nat (i - total (take k (buffers s)))"
  shows "buffers (dispatch t s) =
           take k (buffers s)
           @ [take local (buffers s ! k), insertionChunk s, drop local (buffers s ! k)]
           @ drop (Suc k) (buffers s)
         \<and> len (dispatch t s) = len s + insertionLength s"
proof -
  let ?s1 = "if anyTokenListeners s then onAnyToken t s else s"
  have same: "buffers ?s1 = buffers s" "stringBuffer ?s1 = stringBuffer s"
    "writtenOffset ?s1 = writtenOffset s" "insertToEnd ?s1 = insertToEnd s"
    "targetTagName ?s1 = targetTagName s" "insertionChunk ?s1 = insertionChunk s"
    "len ?s1 = len s" "insertionLength ?s1 = insertionLength s"
    by (simp_all add: onAnyToken_def)
  have d: "dispatch t s = onTag t ?s1"
    using assms(1,2) by (simp add: dispatch_def Let_def insertionEventName_def)
  have "buffers (onTag t ?s1) =
           take k (buffers ?s1)
           @ [take local (buffers ?s1 ! k), insertionChunk ?s1, drop local (buffers ?s1 ! k)]
           @ drop (Suc k) (buffers ?s1)
         \<and> len (onTag t ?s1) = len ?s1 + insertionLength ?s1"
  proof (rule onTag_split)
    show "tagName t = targetTagName ?s1" using assms(3) same by simp
    show "i = byteLength (substring0 (stringBuffer ?s1)
                (if insertToEnd ?s1 then startOffset t else endOffset t)) - writtenOffset ?s1"
      using assms(4,5) same by simp
    show "0 \<le> i" by (rule assms(6))
    show "k < length (buffers ?s1)" using assms(7) same by simp
    show "i \<le> total (take (Suc k) (buffers ?s1))" using assms(8) same by simp
    show "\<forall>j<k. total (take (Suc j) (buffers ?s1)) < i" using assms(9) same by simp
    show "local = nat (i - total (take k (buffers ?s1)))" using assms(10) same by simp
  qed
  then show ?thesis using d same by simp
qed

theorem dispatch_splice_witness:
  "buffers (dispatch (tok StartTag ''p'' 0 3) splice_example)
     = [[0x3C], [0x70, 0x3E], [0x5A], [0x41]]
   \<and> len (dispatch (tok StartTag ''p'' 0 3) splice_example) = 5
   \<and> buffers (dispatch (tok EndTag ''p'' 4 8) splice_example_end)
     = [[0x3C, 0x70, 0x3E], [0x41], [0x5A], [0x3C, 0x2F, 0x70, 0x3E]]
   \<and> len (dispatch (tok EndTag ''p'' 4 8) splice_example_end) = 9"
proof -
  let ?s = splice_example and ?t = "tok StartTag ''p'' 0 3"
  have a1: "tagListener ?s" by (simp add: splice_example_def new_engine_def)
  have a2: "kind ?t = (if insertToEnd ?s then EndTag else StartTag)"
    by (simp add: tok_def splice_example_def new_engine_def)
  have a3: "tagName ?t = targetTagName ?s"
    by (simp add: tok_def splice_example_def new_engine_def)
  have a4: "(3::int) = (if insertToEnd ?s then startOffset ?t else endOffset ?t)"
    by (simp add: tok_def splice_example_def new_engine_def)
  have a5: "(3::int) = byteLength (substring0 (stringBuffer ?s) 3) - writtenOffset ?s"
    by (simp add: splice_example_def new_engine_def substring0_def)
  have a6: "(0::int) \<le> 3" by simp
  have a7: "1 < length (buffers ?s)" by (simp add: splice_example_def)
  have a8: "3 \<le> total (take (Suc 1) (buffers ?s))" by (simp add: splice_example_def total_def)
  have a9: "\<forall>j<1. total (take (Suc j) (buffers ?s)) < 3" by (simp add: splice_example_def total_def)
  have a10: "(2::nat) = nat (3 - total (take 1 (buffers ?s)))" by (simp add: splice_example_def total_def)
  let ?e = splice_example_end and ?c = "tok EndTag ''p'' 4 8"
  have b1: "tagListener ?e" by (simp add: splice_example_end_def new_engine_def)
  have b2: "kind ?c = (if insertToEnd ?e then EndTag else StartTag)"
    by (simp add: tok_def splice_example_end_def new_engine_def)
  have b3: "tagName ?c = targetTagName ?e"
    by (simp add: tok_def splice_example_end_def new_engine_def)
  have b4: "(4::int) = (if insertToEnd ?e then startOffset ?c else endOffset ?c)"
    by (simp add: tok_def splice_example_end_def new_engine_def)
  have b5: "(4::int) = byteLength (substring0 (stringBuffer ?e) 4) - writtenOffset ?e"
    by (simp add: splice_example_end_def new_engine_def substring0_def)
  have b6: "(0::int) \<le> 4" by simp
  have b7: "1 < length (buffers ?e)" by (simp add: splice_example_end_def)
  have b8: "4 \<le> total (take (Suc 1) (buffers ?e))" by (simp add: splice_example_end_def total_def)
  have b9: "\<forall>j<1. total (take (Suc j) (buffers ?e)) < 4" by (simp add: splice_example_end_def total_def)
  have b10: "(1::nat) = nat (4 - total (take 1 (buffers ?e)))" by (simp add: splice_example_end_def total_def)
  from dispatch_splice [OF a1 a2 a3 a4 a5 a6 a7 a8 a9 a10]
       dispatch_splice [OF b1 b2 b3 b4 b5 b6 b7 b8 b9 b10]
  show ?thesis
    by (simp add: splice_example_def splice_example_end_def new_engine_def)
qed

section \<open>Accepting a chunk\<close>

text \<open>
  Claim C8. While HTML processing is active, a write that names an encoding other than
  UTF-8 reports \<open>ERR_INVALID_HTML_ENCODING\<close> once and returns: the chunk is not put on the
  queue, nothing is decoded, and nothing reaches the tokenizer.
\<close>

theorem internalWrite_rejects_encoding:
  assumes "shouldParseHtml s" and "e \<noteq> []" and "\<not> utf8Re_test e"
  shows "internalWrite data (Encoding e) isLast r s =
           (Returns (), s\<lparr> emitted := emitted s @ [ERR_INVALID_HTML_ENCODING e] \<rparr>)"
  using assms by (simp add: internalWrite_def rejected_encoding_def)

theorem internalWrite_rejects_encoding_witness:
  "shouldParseHtml html_engine \<and> ''ascii'' \<noteq> [] \<and> \<not> utf8Re_test ''ascii''
   \<and> internalWrite [0x3C, 0x70, 0x3E] (Encoding ''ascii'') False
        (Tokens [tok StartTag ''p'' 0 3]) html_engine =
       (Returns (), html_engine\<lparr> emitted := [ERR_INVALID_HTML_ENCODING ''ascii''] \<rparr>)"
proof -
  have h1: "shouldParseHtml html_engine" by (simp add: html_engine_def)
  have h2: "''ascii'' \<noteq> []" by simp
  have h3: "\<not> utf8Re_test ''ascii''" by (simp add: lower_ascii_def)
  have "emitted html_engine = []" by (simp add: html_engine_def new_engine_def)
  with internalWrite_rejects_encoding [OF h1 h2 h3] h1 h2 h3 show ?thesis by simp
qed

text \<open>
  Claim C10. \<open>write\<close> and \<open>writeLast\<close> with an empty chunk return with the engine as it
  was: queue, tracked length, decoder, decoded text and tokenizer are untouched, also for
  the last chunk, so that bytes the decoder still holds are not checked. (Only the report
  of a rejected encoding, which comes first, is added.)
\<close>

theorem empty_chunk_is_ignored:
  "parser_write [] enc r s =
     (Returns (),
      case rejected_encoding s enc of
        None \<Rightarrow> s
      | Some e \<Rightarrow> s\<lparr> emitted := emitted s @ [ERR_INVALID_HTML_ENCODING e] \<rparr>)
   \<and> parser_writeLast [] enc r s =
     (Returns (),
      case rejected_encoding s enc of
        None \<Rightarrow> s
      | Some e \<Rightarrow> s\<lparr> emitted := emitted s @ [ERR_INVALID_HTML_ENCODING e] \<rparr>)"
  by (simp add: parser_write_def parser_writeLast_def internalWrite_def push_def split: option.splits)


section \<open>Responses on which the program goes wrong\<close>

text \<open>
  Claim C1, at a body that starts with a byte order mark. The decoder leaves the mark out
  of the decoded text, so every byte offset taken from the text is three bytes short: the
  payload \<open>Z\<close> lands inside the open tag instead of after it.
\<close>

theorem byte_order_mark_shifts_the_insertion:
  "delivered (snd (res_end (Some ([0xEF, 0xBB, 0xBF] @ bytes_of ''<body></body>'')) NoEncoding
       (Tokens [tok StartTag ''body'' 0 6, tok EndTag ''body'' 6 13])
       (html_response ''Z'' False)))
   = [0xEF, 0xBB, 0xBF] @ bytes_of ''<boZdy></body>''"
  unfolding html_response_eq by (simp add: response_defs engine_defs Let_def)

text \<open>
  Claim C2, at an HTML response without the target tag. The body goes out as it came in,
  but the declared length has been raised by the length of the payload that is never
  inserted.
\<close>

theorem content_length_grows_without_insertion:
  "delivered (snd (res_end (Some (bytes_of ''<p>hello</p>'')) NoEncoding
       (Tokens [tok StartTag ''p'' 0 3, tok TextRun [] 3 8, tok EndTag ''p'' 8 12])
       (setHeader example_platform ''content-length'' (HString ''12'') (html_response ''Z'' False))))
     = bytes_of ''<p>hello</p>''
   \<and> headers (snd (res_end (Some (bytes_of ''<p>hello</p>'')) NoEncoding
       (Tokens [tok StartTag ''p'' 0 3, tok TextRun [] 3 8, tok EndTag ''p'' 8 12])
       (setHeader example_platform ''content-length'' (HString ''12'') (html_response ''Z'' False))))
       ''content-length''
     = Some (HString ''13'')"
  unfolding html_response_eq by (simp add: response_defs engine_defs Let_def)

text \<open>
  Claim C3, at the empty string as declared length. It has no character that is not a
  digit, so it passes the check, is read as \<open>NaN\<close>, and the header becomes \<open>NaN\<close>; no error
  is reported and the header is not removed.
\<close>

theorem empty_content_length_is_accepted:
  "errors (setHeader example_platform ''content-length'' (HString []) (html_response ''?'' False)) = []
   \<and> headers (setHeader example_platform ''content-length'' (HString []) (html_response ''?'' False))
         ''content-length''
       = Some (HString ''NaN'')"
  unfolding html_response_eq by (simp add: response_defs engine_defs Let_def)

text \<open>The declared length also grows again with every later header of the response.\<close>

lemma content_length_grows_with_each_header:
  "headers (setHeader example_platform ''x-other'' (HString ''1'')
              (setHeader example_platform ''content-length'' (HString ''12'')
                 (html_response ''Z'' False))) ''content-length''
   = Some (HString ''14'')"
  unfolding html_response_eq by (simp add: response_defs engine_defs Let_def)

text \<open>What does hold of the declared length: one with a character that is not a
  digit, and a number that is not a non-negative integer, are rejected with the value in
  the message and the header removed; a non-negative integer has the payload length
  added (in the range where the sum is exact).\<close>

lemma adjustContentLength_rejects_string:
  "has_non_digit str \<Longrightarrow>
     adjustContentLength P (HString str) res
       = emit_error (ContentLengthError
                       (CONTENT_LENGTH_ERROR @ '', but it was '' @ inspect P (HString str) @ ''.''))
           (res\<lparr> headers := (headers res)(''content-length'' := None) \<rparr>)"
  by (simp add: adjustContentLength_def reject_content_length_def content_length_message_def)

lemma adjustContentLength_rejects_number:
  "n = JNaN \<or> (\<exists>printed. n = JNonInteger printed) \<or> (\<exists>i<0. n = JInt i) \<Longrightarrow>
     adjustContentLength P (HNumber n) res
       = emit_error (ContentLengthError
                       (CONTENT_LENGTH_ERROR @ '', but it was '' @ inspect P (HNumber n) @ ''.''))
           (res\<lparr> headers := (headers res)(''content-length'' := None) \<rparr>)"
  by (auto simp: adjustContentLength_def reject_content_length_def content_length_message_def)

lemma adjustContentLength_adds_payload:
  assumes "shouldParseHtml (parser res)" and "0 \<le> l"
    and "headers res ''content-length'' = Some (HNumber (JInt l))"
    and "0 < insertionLength (parser res)"
    and "exact (l + insertionLength (parser res))"
  shows "headers (adjustContentLength P (HNumber (JInt l)) res) ''content-length''
           = Some (HString (decimal (nat (l + insertionLength (parser res)))))"
proof -
  have "exact l" "exact (insertionLength (parser res))"
    using assms(2,4,5) by (simp_all add: exact_def)
  then show ?thesis using assms
    by (simp add: adjustContentLength_def strict_neq_def js_add_def originalSetHeader_def
          number_toString_def signed_decimal_def lower_ascii_def)
qed

lemma declared_lengths_of_the_tests:
  "errors (setHeader example_platform ''content-length'' (HString ''0_0'') (html_response ''?'' False))
     = [ContentLengthError (CONTENT_LENGTH_ERROR @ '', but it was '' @ [CHR 0x27] @ ''0_0'' @ [CHR 0x27] @ ''.'')]
   \<and> headers (setHeader example_platform ''content-length'' (HString ''0_0'') (html_response ''?'' False))
         ''content-length'' = None
   \<and> errors (setHeader example_platform ''content-length'' (HNumber (JInt (- 100))) (html_response ''?'' False))
     = [ContentLengthError (CONTENT_LENGTH_ERROR @ '', but it was -100.'')]
   \<and> headers (setHeader example_platform ''content-length'' (HString ''37'') (html_response ''?'' False))
         ''content-length'' = Some (HString ''38'')"
  unfolding html_response_eq by (simp add: response_defs engine_defs Let_def)

text \<open>
  Claim C7, at the single byte \<open>0xAC\<close> given to \<open>end\<close>. After the report of the decoding
  error the call goes on: the tokenizer is written to (here its stream answers with an
  error event of its own, or with no token), and the queue with the invalid byte is
  handed to the original \<open>end\<close>.
\<close>

theorem invalid_bytes_reach_the_transport:
  "sent (snd (res_end (Some [0xAC]) NoEncoding StreamError (html_response ''Z'' False)))
     = [OrigEnd (Some [0xAC])]
   \<and> errors (snd (res_end (Some [0xAC]) NoEncoding StreamError (html_response ''Z'' False)))
     = [DecodeError, ERR_INVALID_CHUNK]
   \<and> sent (snd (res_end (Some [0xAC]) NoEncoding (Tokens []) (html_response ''Z'' False)))
     = [OrigEnd (Some [0xAC])]
   \<and> errors (snd (res_end (Some [0xAC]) NoEncoding (Tokens []) (html_response ''Z'' False)))
     = [DecodeError]"
  unfolding html_response_eq by (simp add: response_defs engine_defs Let_def)

text \<open>The sibling branch for a rejected encoding returns after its report: nothing of
  the chunk is delivered.\<close>

lemma rejected_encoding_delivers_nothing:
  "sent (snd (res_end (Some (bytes_of ''<body>'')) (Encoding ''latin1'') (Tokens [])
                (html_response ''Z'' False)))
     = [OrigEnd (Some [])]
   \<and> errors (snd (res_end (Some (bytes_of ''<body>'')) (Encoding ''latin1'') (Tokens [])
                (html_response ''Z'' False)))
     = [ERR_INVALID_HTML_ENCODING ''latin1'']"
  unfolding html_response_eq by (simp add: response_defs engine_defs Let_def)


section \<open>Decoded text and byte offsets\<close>

lemma byteLength_nonneg: "0 \<le> byteLength xs"
  by (induction xs rule: byteLength.induct) auto

lemma high_not_small: "isHighSurrogate u \<Longrightarrow> \<not> u < 0x800"
  by (simp add: isHighSurrogate_def word_le_nat_alt word_less_nat_alt)

lemma byteLength_cons1: "u < 0x80 \<Longrightarrow> byteLength (u # us) = 1 + byteLength us"
  by (cases us) auto

lemma byteLength_cons2: "\<not> u < 0x80 \<Longrightarrow> u < 0x800 \<Longrightarrow> byteLength (u # us) = 2 + byteLength us"
  by (cases us) auto

lemma byteLength_cons3:
  "\<not> u < 0x800 \<Longrightarrow> \<not> isHighSurrogate u \<Longrightarrow> byteLength (u # us) = 3 + byteLength us"
  by (cases us) (auto simp: word_less_nat_alt)

lemma byteLength_pair:
  "isHighSurrogate h \<Longrightarrow> isLowSurrogate l \<Longrightarrow> byteLength (h # l # us) = 4 + byteLength us"
  using high_not_small [of h] by (auto simp: word_less_nat_alt)

lemma closed_cons: "\<not> isHighSurrogate u \<Longrightarrow> closed (u # us) = closed us"
  by (cases us) auto

lemma closed_pair: "isHighSurrogate h \<Longrightarrow> isLowSurrogate l \<Longrightarrow> closed (h # l # us) = closed us"
  by simp

lemma byteLength_append_ge: "byteLength xs \<le> byteLength (xs @ ys)"
proof (induction xs rule: byteLength.induct)
  case 1
  then show ?case by (simp add: byteLength_nonneg)
next
  case (2 u)
  show ?case
  proof (cases ys)
    case Nil
    then show ?thesis by simp
  next
    case (Cons v vs)
    then show ?thesis using byteLength_nonneg [of "v # vs"] byteLength_nonneg [of vs] by auto
  qed
next
  case (3 u v us)
  then show ?case by auto
qed

lemma byteLength_append: "closed xs \<Longrightarrow> byteLength (xs @ ys) = byteLength xs + byteLength ys"
proof (induction xs rule: byteLength.induct)
  case 1
  then show ?case by simp
next
  case (2 u)
  then show ?case by (cases ys) (auto simp: high_not_small)
next
  case (3 u v us)
  show ?case
  proof (cases "isHighSurrogate u \<and> isLowSurrogate v")
    case True
    then have "\<not> u < 0x80" "\<not> u < 0x800"
      by (simp_all add: isHighSurrogate_def word_le_nat_alt word_less_nat_alt)
    with True 3 show ?thesis by simp
  next
    case False
    with 3 show ?thesis by auto
  qed
qed

lemma closed_append: "closed xs \<Longrightarrow> closed ys \<Longrightarrow> closed (xs @ ys)"
proof (induction xs rule: closed.induct)
  case 1
  then show ?case by simp
next
  case (2 u)
  then show ?case by (cases ys) auto
next
  case (3 u v us)
  then show ?case by (auto split: if_splits)
qed

lemma byteLength_take_mono: "n \<le> m \<Longrightarrow> byteLength (take n xs) \<le> byteLength (take m xs)"
proof -
  assume "n \<le> m"
  then have "take m xs = take n xs @ take (m - n) (drop n xs)"
    by (metis le_add_diff_inverse take_add)
  then show ?thesis using byteLength_append_ge by metis
qed

lemma byteLength_take_le: "byteLength (take n xs) \<le> byteLength xs"
  using byteLength_append_ge [of "take n xs" "drop n xs"] by simp

lemma list1: "length cs = 1 \<Longrightarrow> \<exists>c1. cs = [c1]"
  by (cases cs) auto

lemma list2: "length cs = 2 \<Longrightarrow> \<exists>c1 c2. cs = [c1, c2]"
  by (cases cs; cases "tl cs") auto

lemma list3: "length cs = 3 \<Longrightarrow> \<exists>c1 c2 c3. cs = [c1, c2, c3]"
  by (cases cs; cases "tl cs"; cases "tl (tl cs)") auto

lemma lead_range:
  assumes "lead b = Some (n, lo, hi, bits)" and "continuation_ok lo hi cs" and "length cs = n"
  shows "(n = 1 \<and> 0x80 \<le> code_point bits cs \<and> code_point bits cs < 0x800)
       \<or> (n = 2 \<and> 0x800 \<le> code_point bits cs \<and> code_point bits cs < 0x10000
              \<and> (code_point bits cs < 0xD800 \<or> 0xE000 \<le> code_point bits cs))
       \<or> (n = 3 \<and> 0x10000 \<le> code_point bits cs \<and> code_point bits cs < 0x110000)"
proof -
  consider (a) "0xC2 \<le> b" "b \<le> 0xDF" "n = 1" "lo = 0x80" "hi = 0xBF" "bits = unat b - 0xC0"
    | (b) "n = 2" "lo = 0xA0" "hi = 0xBF" "bits = 0"
    | (c) "n = 2" "lo = 0x80" "hi = 0x9F" "bits = 0xD"
    | (d) "0xE1 \<le> b" "b \<le> 0xEF" "b \<noteq> 0xED" "n = 2" "lo = 0x80" "hi = 0xBF" "bits = unat b - 0xE0"
    | (e) "n = 3" "lo = 0x90" "hi = 0xBF" "bits = 0"
    | (f) "n = 3" "lo = 0x80" "hi = 0x8F" "bits = 4"
    | (g) "0xF1 \<le> b" "b \<le> 0xF3" "n = 3" "lo = 0x80" "hi = 0xBF" "bits = unat b - 0xF0"
    using assms(1) by (auto simp: lead_def split: if_splits)
  then show ?thesis
  proof cases
    case a
    from assms(3) a have "length cs = 1" by simp
    then obtain c1 where cs: "cs = [c1]" using list1 by blast
    have "194 \<le> unat b" "unat b \<le> 223" using a by (simp_all add: word_le_nat_alt)
    moreover have "128 \<le> unat c1" "unat c1 \<le> 191"
      using assms(2) a cs by (simp_all add: word_le_nat_alt)
    ultimately show ?thesis using a cs by (simp add: code_point_def; arith)
  next
    case b
    from assms(3) b have "length cs = 2" by simp
    then obtain c1 c2 where cs: "cs = [c1, c2]" using list2 by blast
    have "160 \<le> unat c1" "unat c1 \<le> 191" "128 \<le> unat c2" "unat c2 \<le> 191"
      using assms(2) b cs by (simp_all add: word_le_nat_alt)
    then show ?thesis using b cs by (simp add: code_point_def; arith)
  next
    case c
    from assms(3) c have "length cs = 2" by simp
    then obtain c1 c2 where cs: "cs = [c1, c2]" using list2 by blast
    have "128 \<le> unat c1" "unat c1 \<le> 159" "128 \<le> unat c2" "unat c2 \<le> 191"
      using assms(2) c cs by (simp_all add: word_le_nat_alt)
    then show ?thesis using c cs by (simp add: code_point_def; arith)
  next
    case d
    from assms(3) d have "length cs = 2" by simp
    then obtain c1 c2 where cs: "cs = [c1, c2]" using list2 by blast
    have "225 \<le> unat b" "unat b \<le> 239" using d by (simp_all add: word_le_nat_alt)
    moreover have "unat b \<noteq> 237"
      using d(3) by (simp add: word_unat_eq_iff)
    moreover have "128 \<le> unat c1" "unat c1 \<le> 191" "128 \<le> unat c2" "unat c2 \<le> 191"
      using assms(2) d cs by (simp_all add: word_le_nat_alt)
    ultimately show ?thesis using d cs by (simp add: code_point_def; arith)
  next
    case e
    from assms(3) e have "length cs = 3" by simp
    then obtain c1 c2 c3 where cs: "cs = [c1, c2, c3]" using list3 by blast
    have "144 \<le> unat c1" "unat c1 \<le> 191" "128 \<le> unat c2" "unat c2 \<le> 191"
         "128 \<le> unat c3" "unat c3 \<le> 191"
      using assms(2) e cs by (simp_all add: word_le_nat_alt)
    then show ?thesis using e cs by (simp add: code_point_def; arith)
  next
    case f
    from assms(3) f have "length cs = 3" by simp
    then obtain c1 c2 c3 where cs: "cs = [c1, c2, c3]" using list3 by blast
    have "128 \<le> unat c1" "unat c1 \<le> 143" "128 \<le> unat c2" "unat c2 \<le> 191"
         "128 \<le> unat c3" "unat c3 \<le> 191"
      using assms(2) f cs by (simp_all add: word_le_nat_alt)
    then show ?thesis using f cs by (simp add: code_point_def; arith)
  next
    case g
    from assms(3) g have "length cs = 3" by simp
    then obtain c1 c2 c3 where cs: "cs = [c1, c2, c3]" using list3 by blast
    have "241 \<le> unat b" "unat b \<le> 243" using g by (simp_all add: word_le_nat_alt)
    moreover have "128 \<le> unat c1" "unat c1 \<le> 191" "128 \<le> unat c2" "unat c2 \<le> 191"
         "128 \<le> unat c3" "unat c3 \<le> 191"
      using assms(2) g cs by (simp_all add: word_le_nat_alt)
    ultimately show ?thesis using g cs by (simp add: code_point_def; arith)
  qed
qed

lemma unat_unit: "cp < 65536 \<Longrightarrow> unat (of_nat cp :: 16 word) = cp"
  by (simp add: unat_of_nat)

lemma units_effect:
  assumes "(n = 1 \<and> 0x80 \<le> cp \<and> cp < 0x800)
       \<or> (n = 2 \<and> 0x800 \<le> cp \<and> cp < 0x10000 \<and> (cp < 0xD800 \<or> 0xE000 \<le> cp))
       \<or> (n = 3 \<and> 0x10000 \<le> cp \<and> cp < 0x110000)"
  shows "byteLength (utf16_units cp @ us) = int n + 1 + byteLength us
         \<and> closed (utf16_units cp @ us) = closed us"
proof -
  consider (two) "n = 1" "0x80 \<le> cp" "cp < 0x800"
    | (three) "n = 2" "0x800 \<le> cp" "cp < 0x10000" "cp < 0xD800 \<or> 0xE000 \<le> cp"
    | (four) "n = 3" "0x10000 \<le> cp" "cp < 0x110000"
    using assms by auto
  then show ?thesis
  proof cases
    case two
    let ?w = "of_nat cp :: 16 word"
    have u: "unat ?w = cp" using two by (intro unat_unit) simp
    have "\<not> ?w < 0x80" "?w < 0x800" "\<not> isHighSurrogate ?w"
      using two u by (simp_all add: word_less_nat_alt word_le_nat_alt isHighSurrogate_def)
    then show ?thesis using two
      by (simp add: utf16_units_def byteLength_cons2 closed_cons)
  next
    case three
    let ?w = "of_nat cp :: 16 word"
    have u: "unat ?w = cp" using three by (intro unat_unit) simp
    have "\<not> ?w < 0x800" "\<not> isHighSurrogate ?w"
      using three u by (auto simp add: word_less_nat_alt word_le_nat_alt isHighSurrogate_def)
    then show ?thesis using three
      by (simp add: utf16_units_def byteLength_cons3 closed_cons)
  next
    case four
    let ?h = "of_nat (0xD800 + (cp - 0x10000) div 1024) :: 16 word"
    let ?l = "of_nat (0xDC00 + (cp - 0x10000) mod 1024) :: 16 word"
    have q: "(cp - 0x10000) div 1024 < 1024" using four by simp
    have r: "(cp - 0x10000) mod 1024 < 1024" by simp
    have uh: "unat ?h = 0xD800 + (cp - 0x10000) div 1024" using q by (intro unat_unit) simp
    have ul: "unat ?l = 0xDC00 + (cp - 0x10000) mod 1024" using r by (intro unat_unit) simp
    have "isHighSurrogate ?h"
      unfolding isHighSurrogate_def word_le_nat_alt uh using q by simp
    moreover have "isLowSurrogate ?l"
      unfolding isLowSurrogate_def word_le_nat_alt ul using r by simp
    ultimately have "byteLength (?h # ?l # us) = 4 + byteLength us"
        and "closed (?h # ?l # us) = closed us"
      by (simp_all only: byteLength_pair closed_pair)
    moreover have "utf16_units cp @ us = ?h # ?l # us"
      using four by (simp add: utf16_units_def)
    ultimately show ?thesis using four by (simp only:) simp
  qed
qed

lemma ascii_unit:
  fixes b :: byte
  assumes "b < 0x80"
  shows "(ucast b :: 16 word) < 0x80 \<and> \<not> isHighSurrogate (ucast b :: 16 word)"
proof -
  have "uint (ucast b :: 16 word) = uint b"
    by (rule uint_up_ucast) (simp add: is_up)
  then have "unat (ucast b :: 16 word) = unat b"
    by (metis nat_uint_eq)
  moreover have "unat b < 128" using assms by (simp add: word_less_nat_alt)
  ultimately show ?thesis
    by (simp add: word_less_nat_alt word_le_nat_alt isHighSurrogate_def)
qed

lemma utf8_decode_length:
  "utf8_decode bs = Some (us, rest) \<Longrightarrow>
     closed us \<and> byteLength us + int (length rest) = int (length bs)"
proof (induction bs arbitrary: us rest rule: utf8_decode.induct)
  case 1
  then show ?case by simp
next
  case (2 b bs)
  show ?case
  proof (cases "b < 0x80")
    case True
    with "2.prems" obtain us' where d: "utf8_decode bs = Some (us', rest)" and us: "us = ucast b # us'"
      by (auto split: option.splits)
    from "2.IH"(1) [OF True d] ascii_unit [OF True] us show ?thesis
      by (simp add: byteLength_cons1 closed_cons)
  next
    case False
    with "2.prems" obtain n lo hi bits where l: "lead b = Some (n, lo, hi, bits)"
      by (auto split: option.splits)
    from "2.prems" False l have ok: "continuation_ok lo hi (take n bs)"
      by (auto split: if_splits)
    show ?thesis
    proof (cases "length bs < n")
      case True
      with "2.prems" False l ok have "us = []" "rest = b # bs" by auto
      then show ?thesis by simp
    next
      case long: False
      with "2.prems" False l ok obtain us' where
        d: "utf8_decode (drop n bs) = Some (us', rest)"
        and us: "us = utf16_units (code_point bits (take n bs)) @ us'"
        by (auto split: option.splits)
      have len: "length (take n bs) = n" using long by simp
      have ok': "\<not> \<not> continuation_ok lo hi (take n bs)" using ok by simp
      have ih: "closed us' \<and> byteLength us' + int (length rest) = int (length (drop n bs))"
        using "2.IH"(2) [OF False l refl refl refl ok' long d] .
      from units_effect [OF lead_range [OF l ok len], of us'] ih us long show ?thesis
        by simp
    qed
  qed
qed

section \<open>Invariants of a run\<close>

lemma decode_ok:
  assumes "TextDecoder_decode d data stream = (Returns str, d')"
  shows "closed str
         \<and> byteLength str + int (length (pending d')) \<le> int (length (pending d)) + int (length data)"
proof -
  from assms obtain us rest where dec: "utf8_decode (pending d @ data) = Some (us, rest)"
    by (auto simp: TextDecoder_decode_def Let_def split: option.splits)
  from utf8_decode_length [OF dec]
  have c: "closed us" and l: "byteLength us + int (length rest) = int (length (pending d)) + int (length data)"
    by simp_all
  from assms dec have p: "length (pending d') \<le> length rest"
    by (auto simp: TextDecoder_decode_def Let_def split: if_splits)
  from assms dec have "str = us \<or> (us \<noteq> [] \<and> hd us = 0xFEFF \<and> str = tl us)"
    by (auto simp: TextDecoder_decode_def Let_def split: if_splits)
  then show ?thesis
  proof
    assume "str = us"
    with c l p show ?thesis by simp
  next
    assume a: "us \<noteq> [] \<and> hd us = 0xFEFF \<and> str = tl us"
    then obtain us' where us: "us = 0xFEFF # us'" and str: "str = us'" by (cases us) auto
    have nh: "\<not> isHighSurrogate (0xFEFF :: 16 word)" by (simp add: isHighSurrogate_def)
    have ns: "\<not> (0xFEFF :: 16 word) < 0x800" by simp
    from c us nh have "closed us'" by (simp add: closed_cons)
    moreover have "byteLength us = 3 + byteLength us'"
      unfolding us by (rule byteLength_cons3 [OF ns nh])
    ultimately show ?thesis using l p str by simp
  qed
qed

lemma Buffer_concat_exact:
  "list \<noteq> [] \<Longrightarrow> n = total list \<Longrightarrow> Buffer_concat list n = Returns (concat list)"
  by (simp add: Buffer_concat_def total_def)

lemma total_append: "total (xs @ ys) = total xs + total ys"
  by (simp add: total_def)

lemma total_nonneg: "0 \<le> total xs"
  by (simp add: total_def)

lemma writable_loop_releases:
  assumes "index = total passed" and "wl \<le> index + total rest"
    and "index < wl \<or> (index = wl \<and> passed = [])"
  shows "fst (writable_loop wl index passed rest) = Returns (take (nat wl) (concat (passed @ rest)))
         \<and> concat (snd (writable_loop wl index passed rest)) = drop (nat wl) (concat (passed @ rest))"
  using assms
proof (induction rest arbitrary: index passed)
  case Nil
  then show ?case by (auto simp: total_def)
next
  case (Cons buf rest)
  have idx: "0 \<le> index" using Cons.prems(1) by (simp add: total_nonneg)
  show ?case
  proof (cases "index + int (length buf) = wl")
    case True
    have "Buffer_concat (passed @ [buf]) wl = Returns (concat (passed @ [buf]))"
      using True Cons.prems(1) by (intro Buffer_concat_exact) (simp_all add: total_def)
    moreover have "nat wl = length (concat passed @ buf)"
      using True Cons.prems(1) by (simp add: total_def)
    ultimately show ?thesis using True by simp
  next
    case False
    show ?thesis
    proof (cases "index + int (length buf) > wl")
      case True
      let ?si = "wl - index"
      have si: "0 \<le> ?si" "?si \<le> int (length buf)" using True Cons.prems(3) by auto
      have cat: "Buffer_concat (passed @ [take (nat ?si) buf]) wl
                   = Returns (concat (passed @ [take (nat ?si) buf]))"
        using si Cons.prems(1) idx by (intro Buffer_concat_exact) (auto simp: total_def)
      have n: "nat wl = length (concat passed) + nat ?si"
        using si Cons.prems(1) idx by (simp add: total_def)
      show ?thesis using True False cat n si
        by (simp add: Let_def slice2_prefix slice1_suffix)
    next
      case less: False
      with False have lt: "index + int (length buf) < wl" by simp
      have "fst (writable_loop wl (index + int (length buf)) (passed @ [buf]) rest)
              = Returns (take (nat wl) (concat ((passed @ [buf]) @ rest)))
            \<and> concat (snd (writable_loop wl (index + int (length buf)) (passed @ [buf]) rest))
              = drop (nat wl) (concat ((passed @ [buf]) @ rest))"
        using Cons.prems lt by (intro Cons.IH) (simp_all add: total_def)
      then show ?thesis using False less by simp
    qed
  qed
qed

lemma flush_returns_queue:
  assumes "len s = total (buffers s)"
  shows "fst (flush s) = Returns (concat (buffers s))"
proof (cases "length (buffers s) = 1")
  case True
  then obtain b where "buffers s = [b]" by (cases "buffers s") auto
  then show ?thesis by (simp add: flush_def)
next
  case False
  show ?thesis
  proof (cases "buffers s = []")
    case True
    then show ?thesis by (simp add: flush_def Buffer_concat_def)
  next
    case ne: False
    with False assms show ?thesis by (simp add: flush_def Buffer_concat_exact)
  qed
qed

lemma onTag_frame:
  "stringBuffer (onTag t s) = stringBuffer s \<and> utf8Decoder (onTag t s) = utf8Decoder s
   \<and> emitted (onTag t s) = emitted s \<and> writtenOffset (onTag t s) = writtenOffset s
   \<and> writableOffset (onTag t s) = writableOffset s"
  by (simp add: onTag_def Let_def)

lemma onTag_queue:
  "stopped (onTag t s) \<or> onTag t s = s"
  by (simp add: onTag_def Let_def)

lemma dispatch_frame:
  "stringBuffer (dispatch t s) = stringBuffer s \<and> utf8Decoder (dispatch t s) = utf8Decoder s
   \<and> emitted (dispatch t s) = emitted s \<and> writtenOffset (dispatch t s) = writtenOffset s"
  by (simp add: dispatch_def Let_def onTag_frame onAnyToken_def)

lemma dispatch_queue:
  "stopped (dispatch t s)
   \<or> (buffers (dispatch t s) = buffers s \<and> len (dispatch t s) = len s \<and> \<not> stopped s)"
proof -
  let ?s1 = "if anyTokenListeners s then onAnyToken t s else s"
  have s1: "buffers ?s1 = buffers s \<and> len ?s1 = len s \<and> stopped ?s1 = stopped s"
    by (simp add: onAnyToken_def)
  show ?thesis
  proof (cases "tagListener s \<and> kind t = insertionEventName s")
    case True
    then have d: "dispatch t s = onTag t ?s1" by (simp add: dispatch_def Let_def)
    from onTag_queue [of t ?s1] show ?thesis
    proof
      assume "stopped (onTag t ?s1)"
      then show ?thesis using d by simp
    next
      assume "onTag t ?s1 = ?s1"
      then show ?thesis using d s1 by (cases "stopped s") auto
    qed
  next
    case False
    then have "dispatch t s = ?s1" by (auto simp: dispatch_def Let_def)
    then show ?thesis using s1 by (cases "stopped s") auto
  qed
qed

lemma emit_tokens_frame:
  "stringBuffer (emit_tokens ts s) = stringBuffer s \<and> utf8Decoder (emit_tokens ts s) = utf8Decoder s
   \<and> emitted (emit_tokens ts s) = emitted s \<and> writtenOffset (emit_tokens ts s) = writtenOffset s"
  by (induction ts arbitrary: s) (simp_all add: dispatch_frame)

lemma emit_tokens_stopped: "stopped s \<Longrightarrow> emit_tokens ts s = s"
  by (cases ts) simp_all

lemma emit_tokens_queue:
  "stopped (emit_tokens ts s)
   \<or> (buffers (emit_tokens ts s) = buffers s \<and> len (emit_tokens ts s) = len s)"
proof (induction ts arbitrary: s)
  case Nil
  then show ?case by simp
next
  case (Cons t ts)
  show ?case
  proof (cases "stopped s")
    case True
    then show ?thesis by simp
  next
    case False
    from Cons.IH [of "dispatch t s"] dispatch_queue [of t s] False
      emit_tokens_stopped [of "dispatch t s" ts]
    show ?thesis by auto
  qed
qed

lemma offsets_ok_onTag: "offsets_ok g (onTag t s) = offsets_ok g s"
  by (simp add: offsets_ok_def text_mark_def onTag_frame)

lemma text_mark_mono:
  "g \<le> g' \<Longrightarrow> text_mark g s \<le> text_mark g' s"
  by (simp add: text_mark_def byteLength_take_mono)

lemma dispatch_offsets:
  assumes "offsets_ok g s" and "int g \<le> endOffset t"
  shows "\<exists>g'. offsets_ok g' (dispatch t s) \<and> int g' \<le> endOffset t"
proof -
  let ?g = "min (nat (endOffset t)) (length (stringBuffer s))"
  have ge: "g \<le> ?g" using assms by (simp add: offsets_ok_def)
  have mark: "byteLength (substring0 (stringBuffer s) (endOffset t)) = text_mark ?g s"
    by (simp add: substring0_def text_mark_def min_def)
  have any: "offsets_ok ?g (onAnyToken t s)"
    using assms(1) text_mark_mono [OF ge, of s] mark
    by (simp add: offsets_ok_def onAnyToken_def text_mark_def)
  have le: "int ?g \<le> endOffset t" using assms(2) by simp
  let ?s1 = "if anyTokenListeners s then onAnyToken t s else s"
  have "\<exists>g'. offsets_ok g' ?s1 \<and> int g' \<le> endOffset t"
    using any le assms by auto
  then obtain g' where g': "offsets_ok g' ?s1" "int g' \<le> endOffset t" by blast
  have "dispatch t s = onTag t ?s1 \<or> dispatch t s = ?s1"
    by (simp add: dispatch_def Let_def)
  then have "offsets_ok g' (dispatch t s)"
    using g'(1) by (auto simp: offsets_ok_onTag)
  with g'(2) show ?thesis by blast
qed

lemma sorted_head_le_last: "sorted (lo # xs) \<Longrightarrow> lo \<le> last (lo # xs)"
  by (induction xs arbitrary: lo) auto

lemma emit_tokens_offsets:
  assumes "offsets_ok g s" and "sorted (lo # map endOffset ts)" and "int g \<le> lo"
  shows "\<exists>g'. offsets_ok g' (emit_tokens ts s) \<and> int g' \<le> last (lo # map endOffset ts)"
  using assms
proof (induction ts arbitrary: g s lo)
  case Nil
  then show ?case by auto
next
  case (Cons t ts)
  show ?case
  proof (cases "stopped s")
    case True
    have "lo \<le> last (lo # map endOffset (t # ts))"
      using Cons.prems(2) by (rule sorted_head_le_last)
    with True Cons.prems show ?thesis by auto
  next
    case False
    have "int g \<le> endOffset t" using Cons.prems by simp
    from dispatch_offsets [OF Cons.prems(1) this]
    obtain g1 where g1: "offsets_ok g1 (dispatch t s)" "int g1 \<le> endOffset t" by blast
    have "sorted (endOffset t # map endOffset ts)" using Cons.prems(2) by simp
    from Cons.IH [OF g1(1) this g1(2)] False show ?thesis by simp
  qed
qed

lemma offsets_ok_text_grows:
  "offsets_ok g s \<Longrightarrow> offsets_ok g (s\<lparr> stringBuffer := stringBuffer s @ str \<rparr>)"
  by (simp add: offsets_ok_def text_mark_def)

lemma getWritableBuffer_frame:
  "stringBuffer (snd (getWritableBuffer s)) = stringBuffer s
   \<and> utf8Decoder (snd (getWritableBuffer s)) = utf8Decoder s
   \<and> emitted (snd (getWritableBuffer s)) = emitted s
   \<and> stopped (snd (getWritableBuffer s)) = stopped s"
  by (simp add: getWritableBuffer_def Let_def split: prod.splits)

lemma super_write_emitted: "set (emitted s) \<subseteq> set (emitted (snd (super_write r s)))"
  by (cases r) (auto simp: super_write_def emit_tokens_frame)

lemma internalWrite_emitted:
  "set (emitted s) \<subseteq> set (emitted (snd (internalWrite data enc isLast r s)))"
proof (cases "rejected_encoding s enc")
  case (Some e)
  then show ?thesis by (auto simp: internalWrite_def)
next
  case None
  show ?thesis
  proof (cases "data = []")
    case True
    with None show ?thesis by (simp add: internalWrite_def push_def)
  next
    case False
    obtain c d where dec: "TextDecoder_decode (utf8Decoder s) data (\<not> isLast) = (c, d)"
      by (cases "TextDecoder_decode (utf8Decoder s) data (\<not> isLast)")
    show ?thesis
    proof (cases c)
      case (Returns str)
      with None False dec
        super_write_emitted [of "s\<lparr> len := len s + int (length data), buffers := buffers s @ [data],
                                      utf8Decoder := d, stringBuffer := stringBuffer s @ str \<rparr>" r]
      show ?thesis by (simp add: internalWrite_def push_def)
    next
      case (Throws err)
      with None False dec
        super_write_emitted [of "s\<lparr> len := len s + int (length data), buffers := buffers s @ [data],
                                      utf8Decoder := d, emitted := emitted s @ [DecodeError],
                                      stringBuffer := stringBuffer s @ undefined_text \<rparr>" r]
      show ?thesis by (simp add: internalWrite_def push_def)
    qed
  qed
qed

lemma step_emitted: "set (emitted s) \<subseteq> set (emitted (step operation s))"
  by (cases operation)
     (simp_all add: step_def parser_write_def parser_writeLast_def internalWrite_emitted
        getWritableBuffer_frame removeAnyTokenListeners_def push_def)

lemma run_emitted: "set (emitted s) \<subseteq> set (emitted (fst (run ops (s, acc, rel))))"
proof (induction ops arbitrary: s acc rel)
  case Nil
  then show ?case by simp
next
  case (Cons operation ops)
  from step_emitted [of s operation]
    Cons.IH [of "step operation s" "acc @ accepted_bytes operation s" "rel @ released_bytes operation s"]
  show ?case by auto
qed

lemma internalWrite_cases:
  assumes "DecodeError \<notin> set (emitted (snd (internalWrite data enc isLast (Tokens ts) s)))"
  shows "(\<exists>e. rejected_encoding s enc = Some e
            \<and> snd (internalWrite data enc isLast (Tokens ts) s)
                = s\<lparr> emitted := emitted s @ [ERR_INVALID_HTML_ENCODING e] \<rparr>)
       \<or> (rejected_encoding s enc = None \<and> data = []
            \<and> snd (internalWrite data enc isLast (Tokens ts) s) = s)
       \<or> (rejected_encoding s enc = None \<and> data \<noteq> []
            \<and> (\<exists>str d. TextDecoder_decode (utf8Decoder s) data (\<not> isLast) = (Returns str, d)
                  \<and> snd (internalWrite data enc isLast (Tokens ts) s)
                      = emit_tokens ts (s\<lparr> len := len s + int (length data),
                                            buffers := buffers s @ [data],
                                            utf8Decoder := d,
                                            stringBuffer := stringBuffer s @ str \<rparr>)))"
proof (cases "rejected_encoding s enc")
  case (Some e)
  then show ?thesis by (simp add: internalWrite_def)
next
  case None
  show ?thesis
  proof (cases "data = []")
    case True
    with None show ?thesis by (simp add: internalWrite_def push_def)
  next
    case False
    obtain c d where dec: "TextDecoder_decode (utf8Decoder s) data (\<not> isLast) = (c, d)"
      by (cases "TextDecoder_decode (utf8Decoder s) data (\<not> isLast)")
    show ?thesis
    proof (cases c)
      case (Returns str)
      with None False dec show ?thesis
        by (simp add: internalWrite_def push_def super_write_def)
    next
      case (Throws err)
      with None False dec have "DecodeError \<in> set (emitted (snd (internalWrite data enc isLast (Tokens ts) s)))"
        by (simp add: internalWrite_def push_def super_write_def emit_tokens_frame)
      with assms show ?thesis by simp
    qed
  qed
qed

lemma internalWrite_inv:
  assumes off: "offsets_ok g s" and tx: "text_ok s acc" and q: "queue_ok s acc rel"
    and srt: "sorted (lo # map endOffset ts)" and glo: "int g \<le> lo"
    and clean: "DecodeError \<notin> set (emitted (snd (internalWrite data enc isLast (Tokens ts) s)))"
    and a: "a = (case rejected_encoding s enc of None \<Rightarrow> data | Some e \<Rightarrow> [])"
  shows "\<exists>g'. offsets_ok g' (snd (internalWrite data enc isLast (Tokens ts) s))
              \<and> text_ok (snd (internalWrite data enc isLast (Tokens ts) s)) (acc @ a)
              \<and> queue_ok (snd (internalWrite data enc isLast (Tokens ts) s)) (acc @ a) rel
              \<and> int g' \<le> last (lo # map endOffset ts)"
proof -
  let ?s' = "snd (internalWrite data enc isLast (Tokens ts) s)"
  have lo: "lo \<le> last (lo # map endOffset ts)" using srt by (rule sorted_head_le_last)
  have cases3:
    "(\<exists>e. rejected_encoding s enc = Some e
          \<and> ?s' = s\<lparr> emitted := emitted s @ [ERR_INVALID_HTML_ENCODING e] \<rparr>)
     \<or> (rejected_encoding s enc = None \<and> data = [] \<and> ?s' = s)
     \<or> (rejected_encoding s enc = None \<and> data \<noteq> []
          \<and> (\<exists>str d. TextDecoder_decode (utf8Decoder s) data (\<not> isLast) = (Returns str, d)
                \<and> ?s' = emit_tokens ts (s\<lparr> len := len s + int (length data),
                                            buffers := buffers s @ [data],
                                            utf8Decoder := d,
                                            stringBuffer := stringBuffer s @ str \<rparr>)))"
    by (rule internalWrite_cases [OF clean])
  then consider (rejected) e where "rejected_encoding s enc = Some e"
        "?s' = s\<lparr> emitted := emitted s @ [ERR_INVALID_HTML_ENCODING e] \<rparr>"
    | (empty) "rejected_encoding s enc = None" "data = []" "?s' = s"
    | (taken) str d where "rejected_encoding s enc = None" "data \<noteq> []"
        "TextDecoder_decode (utf8Decoder s) data (\<not> isLast) = (Returns str, d)"
        "?s' = emit_tokens ts (s\<lparr> len := len s + int (length data), buffers := buffers s @ [data],
                                   utf8Decoder := d, stringBuffer := stringBuffer s @ str \<rparr>)"
    by (elim disjE exE conjE) blast+
  then show ?thesis
  proof cases
    case rejected
    have "offsets_ok g ?s'" "text_ok ?s' (acc @ a)" "queue_ok ?s' (acc @ a) rel"
      using off tx q rejected a
      by (simp_all add: offsets_ok_def text_mark_def text_ok_def queue_ok_def)
    then show ?thesis using glo lo by (intro exI [of _ g]) simp
  next
    case empty
    have "offsets_ok g ?s'" "text_ok ?s' (acc @ a)" "queue_ok ?s' (acc @ a) rel"
      using off tx q empty a by simp_all
    then show ?thesis using glo lo by (intro exI [of _ g]) simp
  next
    case taken
    let ?s2 = "s\<lparr> len := len s + int (length data), buffers := buffers s @ [data],
                   utf8Decoder := d, stringBuffer := stringBuffer s @ str \<rparr>"
    have a': "a = data" using a taken by simp
    have off2: "offsets_ok g ?s2"
      using off by (simp add: offsets_ok_def text_mark_def)
    from emit_tokens_offsets [OF off2 srt glo]
    obtain g' where g': "offsets_ok g' (emit_tokens ts ?s2)"
      "int g' \<le> last (lo # map endOffset ts)" by blast
    from decode_ok [OF taken(3)]
    have c: "closed str"
      and l: "byteLength str + int (length (pending d))
                \<le> int (length (pending (utf8Decoder s))) + int (length data)"
      by simp_all
    have fr: "stringBuffer (emit_tokens ts ?s2) = stringBuffer s @ str"
             "utf8Decoder (emit_tokens ts ?s2) = d"
             "writtenOffset (emit_tokens ts ?s2) = writtenOffset s"
      using emit_tokens_frame [of ts ?s2] by simp_all
    have tx': "text_ok (emit_tokens ts ?s2) (acc @ data)"
      using tx c l fr
      by (simp add: text_ok_def closed_append byteLength_append)
    have q': "queue_ok (emit_tokens ts ?s2) (acc @ data) rel"
    proof (cases "stopped s")
      case True
      then have "emit_tokens ts ?s2 = ?s2" by (intro emit_tokens_stopped) simp
      with True show ?thesis by (simp add: queue_ok_def)
    next
      case False
      with q have qs: "len s = total (buffers s)" "rel @ concat (buffers s) = acc"
        "writtenOffset s = int (length rel)"
        by (simp_all add: queue_ok_def)
      from emit_tokens_queue [of ts ?s2] show ?thesis
      proof
        assume "stopped (emit_tokens ts ?s2)"
        then show ?thesis by (simp add: queue_ok_def)
      next
        assume "buffers (emit_tokens ts ?s2) = buffers ?s2 \<and> len (emit_tokens ts ?s2) = len ?s2"
        then show ?thesis using qs fr(3)
          by (simp add: queue_ok_def total_def)
      qed
    qed
    show ?thesis using g' tx' q' taken(4) a' by auto
  qed
qed

lemma getWritableBuffer_inv:
  assumes off: "offsets_ok g s" and tx: "text_ok s acc" and q: "queue_ok s acc rel"
    and r: "r = (case fst (getWritableBuffer s) of Returns b \<Rightarrow> b | Throws e \<Rightarrow> [])"
  shows "offsets_ok g (snd (getWritableBuffer s)) \<and> text_ok (snd (getWritableBuffer s)) acc
         \<and> queue_ok (snd (getWritableBuffer s)) acc (rel @ r)"
proof (cases "writableOffset s = 0")
  case True
  then have "getWritableBuffer s = (Returns [], s)" by (simp add: getWritableBuffer_def)
  then show ?thesis using off tx q r by simp
next
  case False
  let ?wl = "writableOffset s - writtenOffset s"
  let ?loop = "writable_loop ?wl 0 [] (buffers s)"
  have s': "snd (getWritableBuffer s)
              = s\<lparr> writtenOffset := writableOffset s, writableOffset := 0, len := len s - ?wl,
                   buffers := snd ?loop \<rparr>"
    and res: "fst (getWritableBuffer s) = fst ?loop"
    using False by (simp_all add: getWritableBuffer_def Let_def split: prod.splits)
  from off False have w: "writableOffset s = text_mark g s" "0 \<le> writtenOffset s"
    "writtenOffset s \<le> text_mark g s" "g \<le> length (stringBuffer s)"
    by (simp_all add: offsets_ok_def)
  have off': "offsets_ok g (snd (getWritableBuffer s))"
    using w s' by (simp add: offsets_ok_def text_mark_def)
  have tx': "text_ok (snd (getWritableBuffer s)) acc"
    using tx s' by (simp add: text_ok_def)
  have q': "queue_ok (snd (getWritableBuffer s)) acc (rel @ r)"
  proof (cases "stopped s")
    case True
    then show ?thesis using s' by (simp add: queue_ok_def)
  next
    case ns: False
    with q have qs: "len s = total (buffers s)" "rel @ concat (buffers s) = acc"
      "writtenOffset s = int (length rel)"
      by (simp_all add: queue_ok_def)
    have "text_mark g s \<le> byteLength (stringBuffer s)"
      by (simp add: text_mark_def byteLength_take_le)
    also have "\<dots> \<le> int (length acc)" using tx by (simp add: text_ok_def)
    also have "\<dots> = writtenOffset s + total (buffers s)"
      using qs by (auto simp: total_def)
    finally have hi: "?wl \<le> 0 + total (buffers s)" using w by simp
    have lo: "0 \<le> ?wl" using w by simp
    have "fst ?loop = Returns (take (nat ?wl) (concat ([] @ buffers s)))
          \<and> concat (snd ?loop) = drop (nat ?wl) (concat ([] @ buffers s))"
      using hi lo by (intro writable_loop_releases) (auto simp: total_def)
    then have f: "fst ?loop = Returns (take (nat ?wl) (concat (buffers s)))"
      and c: "concat (snd ?loop) = drop (nat ?wl) (concat (buffers s))"
      by simp_all
    have r': "r = take (nat ?wl) (concat (buffers s))" using r res f by simp
    have lenr: "int (length r) = ?wl" using r' hi lo by (simp add: total_def)
    have "len s - ?wl = total (snd ?loop)"
      using qs c hi lo by (simp add: total_def)
    moreover have "(rel @ r) @ concat (snd ?loop) = acc"
      using qs r' c by simp
    moreover have "writableOffset s = int (length (rel @ r))"
      using qs lenr by simp
    ultimately show ?thesis using s' by (simp add: queue_ok_def)
  qed
  from off' tx' q' show ?thesis by simp
qed

lemma step_inv:
  assumes off: "offsets_ok g s" and tx: "text_ok s acc" and q: "queue_ok s acc rel"
    and ans: "tokenizer_answers operation"
    and srt: "sorted (lo # map endOffset (tokens_of operation))" and glo: "int g \<le> lo"
    and clean: "DecodeError \<notin> set (emitted (step operation s))"
  shows "\<exists>g'. offsets_ok g' (step operation s)
              \<and> text_ok (step operation s) (acc @ accepted_bytes operation s)
              \<and> queue_ok (step operation s) (acc @ accepted_bytes operation s)
                    (rel @ released_bytes operation s)
              \<and> int g' \<le> last (lo # map endOffset (tokens_of operation))"
proof (cases operation)
  case (Write data enc r)
  with ans obtain ts where r: "r = Tokens ts" by (cases r) (auto simp: tokenizer_answers_def)
  have "\<exists>g'. offsets_ok g' (snd (internalWrite data enc False (Tokens ts) s))
              \<and> text_ok (snd (internalWrite data enc False (Tokens ts) s)) (acc @ accepted_bytes operation s)
              \<and> queue_ok (snd (internalWrite data enc False (Tokens ts) s)) (acc @ accepted_bytes operation s) rel
              \<and> int g' \<le> last (lo # map endOffset ts)"
    using off tx q srt glo clean Write r
    by (intro internalWrite_inv)
       (simp_all add: tokens_of_def step_def parser_write_def accepted_bytes_def)
  then show ?thesis using Write r
    by (simp add: tokens_of_def step_def parser_write_def released_bytes_def)
next
  case (WriteLast data enc r)
  with ans obtain ts where r: "r = Tokens ts" by (cases r) (auto simp: tokenizer_answers_def)
  have "\<exists>g'. offsets_ok g' (snd (internalWrite data enc True (Tokens ts) s))
              \<and> text_ok (snd (internalWrite data enc True (Tokens ts) s)) (acc @ accepted_bytes operation s)
              \<and> queue_ok (snd (internalWrite data enc True (Tokens ts) s)) (acc @ accepted_bytes operation s) rel
              \<and> int g' \<le> last (lo # map endOffset ts)"
    using off tx q srt glo clean WriteLast r
    by (intro internalWrite_inv)
       (simp_all add: tokens_of_def step_def parser_writeLast_def accepted_bytes_def)
  then show ?thesis using WriteLast r
    by (simp add: tokens_of_def step_def parser_writeLast_def released_bytes_def)
next
  case GetWritableBuffer
  from getWritableBuffer_inv [OF off tx q refl] GetWritableBuffer glo show ?thesis
    by (intro exI [of _ g]) (simp add: step_def accepted_bytes_def released_bytes_def tokens_of_def)
next
  case RemoveAnyTokenListeners
  with off tx q glo show ?thesis
    by (intro exI [of _ g])
       (simp add: step_def accepted_bytes_def released_bytes_def tokens_of_def
          removeAnyTokenListeners_def offsets_ok_def text_mark_def text_ok_def queue_ok_def)
next
  case (Push data)
  with off tx q glo show ?thesis
    by (intro exI [of _ g])
       (auto simp add: step_def accepted_bytes_def released_bytes_def tokens_of_def push_def
          offsets_ok_def text_mark_def text_ok_def queue_ok_def total_def)
next
  case (SetShouldParseHtml b)
  with off tx q glo show ?thesis
    by (intro exI [of _ g])
       (simp add: step_def accepted_bytes_def released_bytes_def tokens_of_def
          offsets_ok_def text_mark_def text_ok_def queue_ok_def)
qed

lemma sorted_last_append:
  "sorted (x # xs @ ys) \<Longrightarrow> sorted (last (x # xs) # ys)"
proof (induction xs arbitrary: x)
  case Nil
  then show ?case by simp
next
  case (Cons a xs)
  then have "sorted (a # xs @ ys)" by simp
  from Cons.IH [OF this] show ?case by simp
qed

lemma sorted_prefix: "sorted (x # xs @ ys) \<Longrightarrow> sorted (x # xs)"
  by (metis append_Cons sorted_append)

lemma run_inv:
  assumes "offsets_ok g s" and "text_ok s acc" and "queue_ok s acc rel"
    and "list_all tokenizer_answers ops"
    and "sorted (lo # ends ops)" and "int g \<le> lo"
    and "DecodeError \<notin> set (emitted (fst (run ops (s, acc, rel))))"
  shows "\<exists>g'. offsets_ok g' (fst (run ops (s, acc, rel)))
              \<and> text_ok (fst (run ops (s, acc, rel))) (fst (snd (run ops (s, acc, rel))))
              \<and> queue_ok (fst (run ops (s, acc, rel))) (fst (snd (run ops (s, acc, rel))))
                    (snd (snd (run ops (s, acc, rel))))"
  using assms
proof (induction ops arbitrary: g s acc rel lo)
  case Nil
  then show ?case by auto
next
  case (Cons operation ops)
  let ?s = "step operation s"
  let ?acc = "acc @ accepted_bytes operation s"
  let ?rel = "rel @ released_bytes operation s"
  let ?es = "map endOffset (tokens_of operation)"
  have e: "ends (operation # ops) = ?es @ ends ops" by (simp add: ends_def)
  have s1: "sorted (lo # ?es)" using Cons.prems(5) e sorted_prefix by metis
  have s2: "sorted (last (lo # ?es) # ends ops)" using Cons.prems(5) e sorted_last_append by metis
  have "set (emitted ?s) \<subseteq> set (emitted (fst (run ops (?s, ?acc, ?rel))))"
    by (rule run_emitted)
  then have clean: "DecodeError \<notin> set (emitted ?s)" using Cons.prems(7) by auto
  have ans: "tokenizer_answers operation" "list_all tokenizer_answers ops"
    using Cons.prems(4) by simp_all
  from step_inv [OF Cons.prems(1,2,3) ans(1) s1 Cons.prems(6) clean]
  obtain g1 where g1: "offsets_ok g1 ?s" "text_ok ?s ?acc" "queue_ok ?s ?acc ?rel"
    "int g1 \<le> last (lo # ?es)" by blast
  have "DecodeError \<notin> set (emitted (fst (run ops (?s, ?acc, ?rel))))"
    using Cons.prems(7) by simp
  from Cons.IH [OF g1(1,2,3) ans(2) s2 g1(4) this] show ?case by simp
qed

lemma new_engine_inv:
  "offsets_ok 0 (new_engine target chunk n toEnd) \<and> text_ok (new_engine target chunk n toEnd) []
   \<and> queue_ok (new_engine target chunk n toEnd) [] []"
  by (simp add: offsets_ok_def text_ok_def queue_ok_def new_engine_def text_mark_def total_def)

section \<open>Watermarks and the final flush\<close>

lemmas run_defs =
  step_def accepted_bytes_def released_bytes_def tokens_of_def tokenizer_answers_def ends_def
  writable_loop.simps

lemma release_example_eq:
  "release_example =
     ((new_engine ''body'' [0x5A] 1 False)
        \<lparr> stringBuffer := [0x3C, 0x70, 0x3E], writtenOffset := 3, utf8Decoder := \<lparr> pending = [], bomSeen = True \<rparr> \<rparr>,
      [0x3C, 0x70, 0x3E], [0x3C, 0x70, 0x3E])"
  by (simp add: release_example_def release_ops_def run_defs engine_defs bytes_of_def tok_def Let_def)

lemma pass_example_eq:
  "pass_example =
     ((new_engine ''body'' [0x5A] 1 False)
        \<lparr> stringBuffer := [0x3C, 0x70, 0x3E, 0x68, 0x69, 0x21], writtenOffset := 3,
          utf8Decoder := \<lparr> pending = [], bomSeen = False \<rparr>,
          buffers := [[0x68, 0x69], [0x21]], len := 3, anyTokenListeners := False \<rparr>,
      [0x3C, 0x70, 0x3E, 0x68, 0x69, 0x21], [0x3C, 0x70, 0x3E])"
  by (simp add: pass_example_def pass_ops_def run_defs engine_defs bytes_of_def tok_def Let_def)

text \<open>
  Claim C6 as it is written fails: \<open>getWritableBuffer\<close> sets \<open>writableOffset\<close> back to 0
  when it releases, so after the release of the three bytes of \<open><p>\<close> the engine has
  \<open>writtenOffset = 3\<close> and \<open>writableOffset = 0\<close>.
\<close>

theorem watermark_order_counterexample:
  "\<not> (writtenOffset (fst release_example) \<le> writableOffset (fst release_example)
      \<and> writableOffset (fst release_example) \<le> int (length (fst (snd release_example))))"
  unfolding release_example_eq by (simp add: new_engine_def)

text \<open>
  Claim C6, amended. For a run on valid UTF-8 whose tokenizer answers every write with
  tokens of non-decreasing end offsets, at every point between operations
  \<open>writtenOffset\<close> and \<open>writableOffset\<close> lie between 0 and the number of bytes accepted so
  far, and \<open>writtenOffset \<le> writableOffset\<close> unless \<open>writableOffset\<close> is 0, its value after a
  release.
\<close>

theorem watermarks_bounded:
  assumes "list_all tokenizer_answers ops" and "sorted (0 # ends ops)"
    and "(s, accepted, released) = run ops (new_engine target chunk n toEnd, [], [])"
    and "DecodeError \<notin> set (emitted s)"
  shows "0 \<le> writtenOffset s \<and> writtenOffset s \<le> int (length accepted)
         \<and> 0 \<le> writableOffset s \<and> writableOffset s \<le> int (length accepted)
         \<and> (writableOffset s = 0 \<or> writtenOffset s \<le> writableOffset s)"
proof -
  let ?init = "(new_engine target chunk n toEnd, [], [])"
  have s: "s = fst (run ops ?init)" and a: "accepted = fst (snd (run ops ?init))"
    using assms(3) by (metis fst_conv snd_conv)+
  have "\<exists>g'. offsets_ok g' (fst (run ops ?init))
              \<and> text_ok (fst (run ops ?init)) (fst (snd (run ops ?init)))
              \<and> queue_ok (fst (run ops ?init)) (fst (snd (run ops ?init))) (snd (snd (run ops ?init)))"
    using new_engine_inv [of target chunk n toEnd] assms(1,2,4) s
    by (intro run_inv [where g = 0 and lo = 0]) simp_all
  then obtain g where off: "offsets_ok g s" and tx: "text_ok s accepted"
    using s a by auto
  have "text_mark g s \<le> byteLength (stringBuffer s)"
    by (simp add: text_mark_def byteLength_take_le)
  also have "\<dots> \<le> int (length accepted)" using tx by (simp add: text_ok_def)
  finally have m: "text_mark g s \<le> int (length accepted)" .
  from off have "0 \<le> writtenOffset s" "writtenOffset s \<le> text_mark g s"
    "writableOffset s = 0 \<or> writableOffset s = text_mark g s"
    by (simp_all add: offsets_ok_def)
  with m show ?thesis by auto
qed

theorem watermarks_bounded_witness:
  "list_all tokenizer_answers release_ops \<and> sorted (0 # ends release_ops)
   \<and> DecodeError \<notin> set (emitted (fst release_example))
   \<and> writtenOffset (fst release_example) = 3 \<and> writableOffset (fst release_example) = 0
   \<and> length (fst (snd release_example)) = 3"
proof -
  have h1: "list_all tokenizer_answers release_ops"
    by (simp add: release_ops_def tokenizer_answers_def)
  have h2: "sorted (0 # ends release_ops)"
    by (simp add: release_ops_def ends_def tokens_of_def tok_def)
  have h3: "(fst release_example, fst (snd release_example), snd (snd release_example))
              = run release_ops (new_engine ''body'' [0x5A] 1 False, [], [])"
    by (simp add: release_example_def)
  have h4: "DecodeError \<notin> set (emitted (fst release_example))"
    by (simp add: release_example_eq new_engine_def)
  from watermarks_bounded [OF h1 h2 h3 h4] h1 h2 h4 show ?thesis
    by (simp add: release_example_eq new_engine_def)
qed

text \<open>
  Claim C5. After any run on valid UTF-8 with such a tokenizer in which the target tag
  has not been met (no splice), \<open>flush\<close> returns one buffer: the accepted bytes without
  those that \<open>getWritableBuffer\<close> has released, in their order; a queue of exactly one
  chunk gives that chunk.
\<close>

theorem flush_returns_unreleased:
  assumes "list_all tokenizer_answers ops" and "sorted (0 # ends ops)"
    and "(s, accepted, released) = run ops (new_engine target chunk n toEnd, [], [])"
    and "DecodeError \<notin> set (emitted s)"
    and "\<not> stopped s"
  shows "fst (flush s) = Returns (drop (length released) accepted)
         \<and> released @ drop (length released) accepted = accepted
         \<and> (\<forall>b. buffers s = [b] \<longrightarrow> fst (flush s) = Returns b)"
proof -
  let ?init = "(new_engine target chunk n toEnd, [], [])"
  have s: "s = fst (run ops ?init)" and a: "accepted = fst (snd (run ops ?init))"
    and r: "released = snd (snd (run ops ?init))"
    using assms(3) by (metis fst_conv snd_conv)+
  have "\<exists>g'. offsets_ok g' (fst (run ops ?init))
              \<and> text_ok (fst (run ops ?init)) (fst (snd (run ops ?init)))
              \<and> queue_ok (fst (run ops ?init)) (fst (snd (run ops ?init))) (snd (snd (run ops ?init)))"
    using new_engine_inv [of target chunk n toEnd] assms(1,2,4) s
    by (intro run_inv [where g = 0 and lo = 0]) simp_all
  then have "queue_ok s accepted released" using s a r by auto
  with assms(5) have q: "len s = total (buffers s)" "released @ concat (buffers s) = accepted"
    by (simp_all add: queue_ok_def)
  from q(2) have d: "drop (length released) accepted = concat (buffers s)" by auto
  have f: "fst (flush s) = Returns (concat (buffers s))"
    using q(1) by (rule flush_returns_queue)
  show ?thesis using d f q(2) by auto
qed

theorem flush_returns_unreleased_witness:
  "list_all tokenizer_answers pass_ops \<and> sorted (0 # ends pass_ops)
   \<and> DecodeError \<notin> set (emitted (fst pass_example)) \<and> \<not> stopped (fst pass_example)
   \<and> fst (snd pass_example) = bytes_of ''<p>hi!'' \<and> snd (snd pass_example) = bytes_of ''<p>''
   \<and> fst (flush (fst pass_example)) = Returns (bytes_of ''hi!'')"
proof -
  have h1: "list_all tokenizer_answers pass_ops"
    by (simp add: pass_ops_def tokenizer_answers_def)
  have h2: "sorted (0 # ends pass_ops)"
    by (simp add: pass_ops_def ends_def tokens_of_def tok_def)
  have h3: "(fst pass_example, fst (snd pass_example), snd (snd pass_example))
              = run pass_ops (new_engine ''body'' [0x5A] 1 False, [], [])"
    by (simp add: pass_example_def)
  have h4: "DecodeError \<notin> set (emitted (fst pass_example))"
    by (simp add: pass_example_eq new_engine_def)
  have h5: "\<not> stopped (fst pass_example)"
    by (simp add: pass_example_eq new_engine_def)
  from flush_returns_unreleased [OF h1 h2 h3 h4 h5] h1 h2 h4 h5 show ?thesis
    by (simp add: pass_example_eq bytes_of_def)
qed

end
